theory Spec2Isabelle
  imports Main "HOL-Library.Char_ord" "HOL-Library.List_Lexorder" "HOL-Library.Sublist"
    "HOL-Library.Multiset"
begin

text \<open>
  A shallow embedding of the batch ledger of the stock manager: the batch model and its
  aggregates (src/types.ts), the depletion and addition services
  (src/services/stockService.ts), the hook's add-batch and bulk release
  (src/hooks/useStockManagement.ts) and the reconstruction of movements from the batch
  notes (src/components/StockAnalysisView.tsx).  A service call reads the whole persisted
  collection and writes it back; here it takes the collection and returns the new one
  together with the settlement of its promise.  The current date, a fresh id and the clock
  are arguments.
\<close>

section \<open>Data model (src/types.ts)\<close>

text \<open>
  Quantities are JavaScript numbers that the forms produce with \<open>parseInt\<close>; they are
  modelled as \<open>int\<close>.  Dates are the ISO strings \<open>YYYY-MM-DD\<close> of the source, kept as
  strings.  An optional field is an \<open>option\<close>; the source tests optional strings by
  truthiness, so an absent string and the empty string take the same branch
  (\<open>truthy\<close> below).  Records cannot share field names, so the two \<open>id\<close> and \<open>notes\<close>
  fields carry the name of their owner.
\<close>

datatype ItemCategory =
  OPERATION_THEATRE | ENDOSCOPY | GENERAL_SUPPLIES | PHARMACEUTICALS | CONSUMABLES | INSTRUMENTS

record Batch =
  id_batch :: string
  quantity :: int
  expiryDate :: "string option"
  supplier :: "string option"
  dateAdded :: string
  notes_batch :: "string option"

record StockItem =
  id_item :: string
  name :: string
  category :: ItemCategory
  unit :: string
  minThreshold :: int
  batches :: "Batch list"
  lastUpdated :: string
  notes_item :: "string option"
  originCountry :: "string option"

text \<open>The persisted collection: the list of items under \<open>STOCK_ITEMS_KEY\<close>.\<close>

type_synonym storage = "StockItem list"

definition truthy :: "string option \<Rightarrow> bool" where
  "truthy s = (case s of None \<Rightarrow> False | Some t \<Rightarrow> t \<noteq> [])"

text \<open>\<open>getTotalQuantity\<close>: \<open>item.batches.reduce((sum, batch) => sum + batch.quantity, 0)\<close>.\<close>

definition getTotalQuantity :: "StockItem \<Rightarrow> int" where
  "getTotalQuantity item = foldl (\<lambda>s b. s + quantity b) 0 (batches item)"

section \<open>Platform functions: dates, strings, \<open>Array.prototype.sort\<close>\<close>

text \<open>
  \<open>new Date(s).getTime()\<close> for a date-only ISO string \<open>YYYY-MM-DD\<close>: the milliseconds
  from 1970-01-01 to midnight UTC of that day.  \<open>None\<close> stands for \<open>NaN\<close> (Invalid Date).
  Only the ten-character form that src/types.ts prescribes is modelled; what an engine
  makes of any other text is outside the model, and every statement that depends on the
  value of a date assumes the date well formed (\<open>validDate\<close>).
\<close>

definition isDigit :: "char \<Rightarrow> bool" where
  "isDigit c = (c \<in> set ''0123456789'')"

definition digitVal :: "char \<Rightarrow> int" where
  "digitVal c = int (of_char c) - 48"

definition parseISODate :: "string \<Rightarrow> (int \<times> int \<times> int) option" where
  "parseISODate s =
     (case s of
        [y1, y2, y3, y4, s1, m1, m2, s2, d1, d2] \<Rightarrow>
          (if list_all isDigit [y1, y2, y3, y4, m1, m2, d1, d2] \<and> s1 = CHR ''-'' \<and> s2 = CHR ''-''
           then Some (1000 * digitVal y1 + 100 * digitVal y2 + 10 * digitVal y3 + digitVal y4,
                      10 * digitVal m1 + digitVal m2,
                      10 * digitVal d1 + digitVal d2)
           else None)
      | _ \<Rightarrow> None)"

definition leapYear :: "int \<Rightarrow> bool" where
  "leapYear y = (y mod 4 = 0 \<and> (y mod 100 \<noteq> 0 \<or> y mod 400 = 0))"

definition daysInMonth :: "int \<Rightarrow> int \<Rightarrow> int" where
  "daysInMonth y m =
     (if m = 2 then (if leapYear y then 29 else 28)
      else if m = 4 \<or> m = 6 \<or> m = 9 \<or> m = 11 then 30 else 31)"

definition daysBeforeMonth :: "int \<Rightarrow> int \<Rightarrow> int" where
  "daysBeforeMonth y m =
     [0, 31, 59, 90, 120, 151, 181, 212, 243, 273, 304, 334] ! nat (m - 1)
       + (if leapYear y \<and> 2 < m then 1 else 0)"

definition daysBeforeYear :: "int \<Rightarrow> int" where
  "daysBeforeYear y = 365 * y + (y + 3) div 4 - (y + 99) div 100 + (y + 399) div 400"

definition dayNumber :: "int \<Rightarrow> int \<Rightarrow> int \<Rightarrow> int" where
  "dayNumber y m d = daysBeforeYear y + daysBeforeMonth y m + (d - 1) - 719528"

definition validYMD :: "int \<Rightarrow> int \<Rightarrow> int \<Rightarrow> bool" where
  "validYMD y m d = (1 \<le> m \<and> m \<le> 12 \<and> 1 \<le> d \<and> d \<le> daysInMonth y m)"

definition getTime :: "string \<Rightarrow> int option" where
  "getTime s =
     (case parseISODate s of
        None \<Rightarrow> None
      | Some (y, m, d) \<Rightarrow> (if validYMD y m d then Some (86400000 * dayNumber y m d) else None))"

definition validDate :: "string \<Rightarrow> bool" where
  "validDate s = (getTime s \<noteq> None)"

text \<open>The time of a well-formed date.\<close>

definition timeOf :: "string \<Rightarrow> int" where
  "timeOf s = (case getTime s of None \<Rightarrow> 0 | Some t \<Rightarrow> t)"

text \<open>\<open>new Date(a).getTime() - new Date(b).getTime()\<close>; \<open>NaN\<close> if either date is invalid.\<close>

definition timeDiff :: "string \<Rightarrow> string \<Rightarrow> int option" where
  "timeDiff a b =
     (case getTime a of
        None \<Rightarrow> None
      | Some x \<Rightarrow> (case getTime b of None \<Rightarrow> None | Some y \<Rightarrow> Some (x - y)))"

definition strOf :: "string option \<Rightarrow> string" where
  "strOf s = (case s of None \<Rightarrow> [] | Some t \<Rightarrow> t)"

definition startsWith :: "string \<Rightarrow> string \<Rightarrow> bool" where
  "startsWith s p = (take (length p) s = p)"

text \<open>
  \<open>String.prototype.trim\<close> on 8-bit text: tab, line feed, vertical tab, form feed,
  carriage return, space and the no-break space are stripped from both ends.
\<close>

definition isSpace :: "char \<Rightarrow> bool" where
  "isSpace c = (c \<in> set [CHR 0x09, CHR 0x0A, CHR 0x0B, CHR 0x0C, CHR 0x0D, CHR '' '', CHR 0xA0])"

definition trim :: "string \<Rightarrow> string" where
  "trim s = rev (dropWhile isSpace (rev (dropWhile isSpace s)))"

text \<open>A number inside a template literal; quantities are integers below \<open>10^21\<close>.\<close>

fun showNat :: "nat \<Rightarrow> string" where
  "showNat n = (if n < 10 then [''0123456789'' ! n] else showNat (n div 10) @ [''0123456789'' ! (n mod 10)])"

definition showInt :: "int \<Rightarrow> string" where
  "showInt i = (if i < 0 then CHR ''-'' # showNat (nat (- i)) else showNat (nat i))"

text \<open>
  \<open>Array.prototype.sort(comparefn)\<close>.  The comparator's result is a number, \<open>None\<close> for
  \<open>NaN\<close>, which the sort reads as \<open>0\<close>.  The sort is stable, so for a comparator that is a
  consistent ordering its result is the one of a stable insertion sort: each element is
  put in front of the first element of the sorted rest that it does not follow.
\<close>

definition sortCompare :: "('a \<Rightarrow> 'a \<Rightarrow> int option) \<Rightarrow> 'a \<Rightarrow> 'a \<Rightarrow> int" where
  "sortCompare comparefn x y = (case comparefn x y of None \<Rightarrow> 0 | Some v \<Rightarrow> v)"

fun insertSorted :: "('a \<Rightarrow> 'a \<Rightarrow> int option) \<Rightarrow> 'a \<Rightarrow> 'a list \<Rightarrow> 'a list" where
  "insertSorted comparefn x [] = [x]"
| "insertSorted comparefn x (y # ys) =
     (if sortCompare comparefn x y \<le> 0 then x # y # ys else y # insertSorted comparefn x ys)"

definition arraySort :: "('a \<Rightarrow> 'a \<Rightarrow> int option) \<Rightarrow> 'a list \<Rightarrow> 'a list" where
  "arraySort comparefn xs = foldr (insertSorted comparefn) xs []"

fun findIndex :: "('a \<Rightarrow> bool) \<Rightarrow> 'a list \<Rightarrow> nat option" where
  "findIndex P [] = None"
| "findIndex P (x # xs) = (if P x then Some 0 else map_option Suc (findIndex P xs))"

section \<open>The depletion engine (stockService.modifyItemBatchesForRelease)\<close>

datatype ReleaseStrategy = FEFO | FIFO

text \<open>The messages of the service's rejections.\<close>

datatype error =
    ItemNotFoundForUpdate
  | ItemNotFoundToAddBatch
  | ItemNotFoundForRelease
  | NotEnoughStock int int

text \<open>
  A promise of the service resolves, is rejected, or stays pending for ever: an exception
  thrown inside the timer callback (by the caller's note formatter) is caught by nobody,
  and neither \<open>resolve\<close> nor \<open>reject\<close> is then called.
\<close>

datatype 'a outcome = Resolved 'a | Rejected error | Pending

text \<open>The caller's note formatter; \<open>None\<close> when it throws.\<close>

type_synonym notesGenerator = "Batch \<Rightarrow> int \<Rightarrow> string \<Rightarrow> string option"

type_synonym affectedBatches = "(string \<times> int) list"

text \<open>The two comparators.\<close>

definition compareFIFO :: "Batch \<Rightarrow> Batch \<Rightarrow> int option" where
  "compareFIFO a b = timeDiff (dateAdded a) (dateAdded b)"

definition compareFEFO :: "Batch \<Rightarrow> Batch \<Rightarrow> int option" where
  "compareFEFO a b =
     (if truthy (expiryDate a) \<and> truthy (expiryDate b) then
        (let expiryDiff = timeDiff (strOf (expiryDate a)) (strOf (expiryDate b))
         in if expiryDiff \<noteq> Some 0 then expiryDiff
            else timeDiff (dateAdded a) (dateAdded b))
      else if truthy (expiryDate a) \<and> \<not> truthy (expiryDate b) then Some (- 1)
      else if \<not> truthy (expiryDate a) \<and> truthy (expiryDate b) then Some 1
      else timeDiff (dateAdded a) (dateAdded b))"

definition sortedBatches :: "ReleaseStrategy \<Rightarrow> Batch list \<Rightarrow> Batch list" where
  "sortedBatches strategy bs =
     (if strategy = FIFO then arraySort compareFIFO (filter (\<lambda>b. quantity b > 0) bs)
      else arraySort compareFEFO (filter (\<lambda>b. quantity b > 0) bs))"

text \<open>
  The \<open>for\<close> loop over the sorted snapshot.  The snapshot holds the very objects of
  \<open>item.batches\<close>, and the loop reads only \<open>batch.id\<close> from it; the batch that is
  drained is the first one of \<open>item.batches\<close> with that id, read in its current state.
  The state is \<open>item.batches\<close>, \<open>remainingToRelease\<close> and \<open>affectedBatchesReturn\<close>;
  \<open>None\<close> when the note formatter throws.
\<close>

definition appendNote :: "string option \<Rightarrow> string \<Rightarrow> string" where
  "appendNote old noteText = (if truthy old then strOf old @ [CHR 0x0A] @ noteText else noteText)"

fun releaseLoop ::
  "notesGenerator option \<Rightarrow> string \<Rightarrow> Batch list \<Rightarrow> Batch list \<times> int \<times> affectedBatches
    \<Rightarrow> (Batch list \<times> int \<times> affectedBatches) option" where
  "releaseLoop gen u [] st = Some st"
| "releaseLoop gen u (batch # rest) (bs, remainingToRelease, affected) =
     (if remainingToRelease \<le> 0 then Some (bs, remainingToRelease, affected)
      else
        (case findIndex (\<lambda>b. id_batch b = id_batch batch) bs of
           None \<Rightarrow> releaseLoop gen u rest (bs, remainingToRelease, affected)
         | Some k \<Rightarrow>
             (let originalBatchRef = bs ! k;
                  canReleaseFromBatch = min (quantity originalBatchRef) remainingToRelease;
                  drained = originalBatchRef\<lparr>quantity := quantity originalBatchRef - canReleaseFromBatch\<rparr>;
                  affected' = affected @ [(id_batch batch, canReleaseFromBatch)]
              in (case gen of
                    None \<Rightarrow>
                      releaseLoop gen u rest
                        (bs[k := drained], remainingToRelease - canReleaseFromBatch, affected')
                  | Some g \<Rightarrow>
                      (case g drained canReleaseFromBatch u of
                         None \<Rightarrow> None
                       | Some noteText \<Rightarrow>
                           releaseLoop gen u rest
                             (bs[k := drained\<lparr>notes_batch := Some (appendNote (notes_batch drained) noteText)\<rparr>],
                              remainingToRelease - canReleaseFromBatch, affected'))))))"

text \<open>
  The service call.  \<open>today\<close> is \<open>getFormattedDate()\<close>.  The collection is written back
  only on the path that resolves.
\<close>

definition modifyItemBatchesForRelease ::
  "string \<Rightarrow> string \<Rightarrow> int \<Rightarrow> notesGenerator option \<Rightarrow> ReleaseStrategy \<Rightarrow> storage
    \<Rightarrow> storage \<times> (StockItem \<times> affectedBatches) outcome" where
  "modifyItemBatchesForRelease today itemId quantityToRelease gen strategy items =
     (case findIndex (\<lambda>item. id_item item = itemId) items of
        None \<Rightarrow> (items, Rejected ItemNotFoundForRelease)
      | Some itemIndex \<Rightarrow>
          (let item = items ! itemIndex;
               sorted = sortedBatches strategy (batches item);
               totalAvailable = foldl (\<lambda>s b. s + quantity b) 0 sorted
           in if totalAvailable < quantityToRelease
              then (items, Rejected (NotEnoughStock totalAvailable quantityToRelease))
              else
                (case releaseLoop gen (unit item) sorted (batches item, quantityToRelease, []) of
                   None \<Rightarrow> (items, Pending)
                 | Some (bs, remainingToRelease, affected) \<Rightarrow>
                     (let updatedItem = item\<lparr>batches := bs, lastUpdated := today\<rparr>
                      in (items[itemIndex := updatedItem], Resolved (updatedItem, affected))))))"

section \<open>Adding a batch (stockService.addBatchToItem)\<close>

text \<open>\<open>Omit<Batch, 'id' | 'dateAdded'>\<close>, the argument of the service.\<close>

record BatchData =
  quantity_data :: int
  expiryDate_data :: "string option"
  supplier_data :: "string option"
  notes_data :: "string option"

definition systemNotePrefix :: "string \<Rightarrow> BatchData \<Rightarrow> string \<Rightarrow> string" where
  "systemNotePrefix currentDateFormatted batchData itemUnit =
     (if truthy (notes_data batchData)
         \<and> (startsWith (strOf (notes_data batchData)) ''[Bulk Add Stock''
              \<or> startsWith (strOf (notes_data batchData)) ''[Stock Addition''
              \<or> startsWith (strOf (notes_data batchData)) ''[Initial Stock'')
      then []
      else ''[Stock Addition - '' @ currentDateFormatted @ '']: Added ''
             @ showInt (quantity_data batchData) @ '' '' @ itemUnit @ ''. '')"

text \<open>
  \<open>today\<close> is \<open>getFormattedDate()\<close> and \<open>newId\<close> the value of \<open>generateId()\<close>.  The service
  checks only that the item exists.
\<close>

definition addBatchToItem ::
  "string \<Rightarrow> string \<Rightarrow> string \<Rightarrow> BatchData \<Rightarrow> string \<Rightarrow> storage
    \<Rightarrow> storage \<times> StockItem outcome" where
  "addBatchToItem today newId itemId batchData itemUnit items =
     (case findIndex (\<lambda>item. id_item item = itemId) items of
        None \<Rightarrow> (items, Rejected ItemNotFoundToAddBatch)
      | Some itemIndex \<Rightarrow>
          (let currentItem = items ! itemIndex;
               newBatch = \<lparr>id_batch = newId,
                           quantity = quantity_data batchData,
                           expiryDate = expiryDate_data batchData,
                           supplier = supplier_data batchData,
                           dateAdded = today,
                           notes_batch = Some (trim (systemNotePrefix today batchData itemUnit
                                                      @ strOf (notes_data batchData)))\<rparr>;
               updatedItem = currentItem\<lparr>batches := batches currentItem @ [newBatch],
                                          lastUpdated := today\<rparr>
           in (items[itemIndex := updatedItem], Resolved updatedItem)))"

section \<open>The hook (src/hooks/useStockManagement.ts)\<close>

text \<open>
  The hook works on two copies of the collection: the React state \<open>allItemsState\<close>, which
  its callbacks read, and the persisted collection, which the service reads and writes.
  A callback returns a value, throws, or never returns (when the promise it awaits stays
  pending).
\<close>

datatype hookError = ItemNotFoundToAddStockBatch | ServiceError error

datatype 'a hookResult = Returned 'a | Thrown hookError | NeverReturns

record AddBatchDetails =
  quantityAdded :: int
  expiryDate_details :: "string option"
  supplier_details :: "string option"
  batchNotes :: "string option"

definition replaceItem :: "StockItem \<Rightarrow> StockItem list \<Rightarrow> StockItem list" where
  "replaceItem updatedItem prevItems =
     map (\<lambda>item. if id_item item = id_item updatedItem then updatedItem else item) prevItems"

definition addStockBatchToItem ::
  "string \<Rightarrow> string \<Rightarrow> string \<Rightarrow> AddBatchDetails \<Rightarrow> StockItem list \<times> storage
    \<Rightarrow> (StockItem list \<times> storage) \<times> StockItem hookResult" where
  "addStockBatchToItem today newId itemId batchDetails st =
     (case st of (allItemsState, items) \<Rightarrow>
        (case find (\<lambda>item. id_item item = itemId) allItemsState of
           None \<Rightarrow> ((allItemsState, items), Thrown ItemNotFoundToAddStockBatch)
         | Some currentItem \<Rightarrow>
             (let newBatchData = \<lparr>quantity_data = quantityAdded batchDetails,
                                   expiryDate_data = expiryDate_details batchDetails,
                                   supplier_data = supplier_details batchDetails,
                                   notes_data = batchNotes batchDetails\<rparr>
              in (case addBatchToItem today newId itemId newBatchData (unit currentItem) items of
                    (items', Resolved updatedItem) \<Rightarrow>
                      ((replaceItem updatedItem allItemsState, items'), Returned updatedItem)
                  | (items', Rejected e) \<Rightarrow> ((allItemsState, items'), Thrown (ServiceError e))
                  | (items', Pending) \<Rightarrow> ((allItemsState, items'), NeverReturns)))))"

subsection \<open>Bulk release (processBulkStockRelease)\<close>

record BulkReleaseItemEntry =
  itemId :: string
  quantityReleased :: int

record BulkReleaseCommonDetails =
  releasedTo :: string
  reason :: "string option"
  releaseDate :: "string option"

record ProcessBulkStockReleasePayload =
  commonDetails_payload :: BulkReleaseCommonDetails
  itemsToRelease :: "BulkReleaseItemEntry list"

text \<open>The messages of the per-entry errors.\<close>

datatype entryError =
    ItemNotFound
  | QuantityMustBePositive
  | NotEnoughStockAvailable int
  | ApiError error

type_synonym processedItem = "StockItem \<times> int \<times> affectedBatches"

type_synonym entryErrorRecord = "string \<times> string \<times> entryError"

record ProcessedBulkReleaseResult =
  success :: bool
  processedItems :: "processedItem list"
  errors :: "entryErrorRecord list"
  commonDetails :: BulkReleaseCommonDetails
  voucherId :: string

text \<open>
  \<open>commonDetails.releaseDate ? getFormattedDate(new Date(commonDetails.releaseDate))
  : getFormattedDate()\<close>.  \<open>toISOString\<close> throws a \<open>RangeError\<close> on an invalid date
  (\<open>None\<close>); on a well-formed date-only string it gives the string back.
\<close>

definition releaseDateStr :: "string \<Rightarrow> string option \<Rightarrow> string option" where
  "releaseDateStr today d =
     (if truthy d then (if validDate (strOf d) then Some (strOf d) else None) else Some today)"

definition releaseOpNotes :: "string \<Rightarrow> string \<Rightarrow> BulkReleaseCommonDetails \<Rightarrow> notesGenerator" where
  "releaseOpNotes today vid common batch qtyReleasedFromBatch itemUnit =
     (case releaseDateStr today (releaseDate common) of
        None \<Rightarrow> None
      | Some ds \<Rightarrow>
          Some (''[Bulk Stock Release - '' @ ds @ '' | Voucher: '' @ vid @ '']: Released ''
                  @ showInt qtyReleasedFromBatch @ '' '' @ itemUnit @ '' to '' @ [CHR 0x22]
                  @ releasedTo common @ [CHR 0x22] @ '' from batch ID '' @ id_batch batch @ ''.''
                  @ (if truthy (reason common) then '' Reason: '' @ strOf (reason common) @ ''.''
                     else [])))"

text \<open>
  The loop over the entries.  Its state: the persisted collection, \<open>result.processedItems\<close>,
  \<open>result.errors\<close>, \<open>overallSuccess\<close> and \<open>updatedItemsBuffer\<close>.  \<open>allItemsState\<close> is the
  snapshot the callback closed over; it does not change during the loop.
\<close>

type_synonym bulkState =
  "storage \<times> processedItem list \<times> entryErrorRecord list \<times> bool \<times> StockItem list"

fun bulkReleaseLoop ::
  "string \<Rightarrow> StockItem list \<Rightarrow> BulkReleaseCommonDetails \<Rightarrow> string \<Rightarrow> BulkReleaseItemEntry list
    \<Rightarrow> bulkState \<Rightarrow> bulkState option" where
  "bulkReleaseLoop today allItemsState common vid [] st = Some st"
| "bulkReleaseLoop today allItemsState common vid (entry # rest) (items, processed, errs, overallSuccess, buffer) =
     (case find (\<lambda>item. id_item item = itemId entry) allItemsState of
        None \<Rightarrow>
          bulkReleaseLoop today allItemsState common vid rest
            (items, processed, errs @ [(itemId entry, ''Unknown Item'', ItemNotFound)], False, buffer)
      | Some currentItem \<Rightarrow>
          (if quantityReleased entry \<le> 0 then
             bulkReleaseLoop today allItemsState common vid rest
               (items, processed, errs @ [(itemId entry, name currentItem, QuantityMustBePositive)],
                False, buffer)
           else if quantityReleased entry > getTotalQuantity currentItem then
             bulkReleaseLoop today allItemsState common vid rest
               (items, processed,
                errs @ [(itemId entry, name currentItem, NotEnoughStockAvailable (getTotalQuantity currentItem))],
                False, buffer)
           else
             (case modifyItemBatchesForRelease today (itemId entry) (quantityReleased entry)
                     (Some (releaseOpNotes today vid common)) FEFO items of
                (items', Resolved (updatedItem, affected)) \<Rightarrow>
                  bulkReleaseLoop today allItemsState common vid rest
                    (items', processed @ [(updatedItem, quantityReleased entry, affected)], errs,
                     overallSuccess, buffer @ [updatedItem])
              | (items', Rejected e) \<Rightarrow>
                  bulkReleaseLoop today allItemsState common vid rest
                    (items', processed, errs @ [(itemId entry, name currentItem, ApiError e)],
                     False, buffer)
              | (items', Pending) \<Rightarrow> None)))"

text \<open>
  \<open>now\<close> is \<open>Date.now()\<close>.  \<open>new Map(pairs)\<close> keeps the last pair of each key.
\<close>

definition processBulkStockRelease ::
  "string \<Rightarrow> int \<Rightarrow> ProcessBulkStockReleasePayload \<Rightarrow> StockItem list \<times> storage
    \<Rightarrow> ((StockItem list \<times> storage) \<times> ProcessedBulkReleaseResult) option" where
  "processBulkStockRelease today now payload st =
     (case st of (allItemsState, items) \<Rightarrow>
        (let vid = ''VOUCHER-'' @ showInt now
         in (case bulkReleaseLoop today allItemsState (commonDetails_payload payload) vid
                    (itemsToRelease payload) (items, [], [], True, []) of
               None \<Rightarrow> None
             | Some (items', processed, errs, overallSuccess, buffer) \<Rightarrow>
                 (let bufferMap = map_of (rev (map (\<lambda>item. (id_item item, item)) buffer));
                      state' = (if length buffer > 0
                                then map (\<lambda>item. case bufferMap (id_item item) of
                                                   Some u \<Rightarrow> u | None \<Rightarrow> item) allItemsState
                                else allItemsState)
                  in Some ((state', items'),
                           \<lparr>success = (overallSuccess \<and> length processed > 0),
                            processedItems = processed,
                            errors = errs,
                            commonDetails = commonDetails_payload payload,
                            voucherId = vid\<rparr>)))))"

section \<open>Soonest expiry (types.getSoonestExpiryDate)\<close>

text \<open>
  \<open>today\<close> is \<open>new Date().toISOString().split('T')[0]\<close>.  The filter compares the strings
  (\<open>batch.expiryDate >= today\<close>), the sort compares their times, and \<open>[0]\<close> of an empty
  array is \<open>undefined\<close>.
\<close>

definition getSoonestExpiryDate :: "string \<Rightarrow> StockItem \<Rightarrow> string option" where
  "getSoonestExpiryDate today item =
     (case arraySort timeDiff
             (map (\<lambda>batch. strOf (expiryDate batch))
                (filter (\<lambda>batch. quantity batch > 0 \<and> truthy (expiryDate batch)
                                   \<and> strOf (expiryDate batch) \<ge> today)
                   (batches item))) of
        [] \<Rightarrow> None
      | x # _ \<Rightarrow> Some x)"

section \<open>Deleting an item (stockService.deleteItem)\<close>

text \<open>
  \<open>items = items.filter(item => item.id !== id); saveItemsToStorage(items); resolve()\<close>.
  The promise has no \<open>reject\<close> path.
\<close>

definition deleteItem :: "string \<Rightarrow> storage \<Rightarrow> storage \<times> unit outcome" where
  "deleteItem i items = (filter (\<lambda>item. id_item item \<noteq> i) items, Resolved ())"

section \<open>The allocation plan in the words of the specification\<close>

text \<open>
  Iterate the sorted batches; for each, drain \<open>min(batch.quantity, remaining)\<close>, record the
  allocation, decrement \<open>remaining\<close>; stop when nothing remains.
\<close>

fun planDrain :: "Batch list \<Rightarrow> int \<Rightarrow> affectedBatches" where
  "planDrain [] remaining = []"
| "planDrain (b # bs) remaining =
     (if remaining \<le> 0 then []
      else (id_batch b, min (quantity b) remaining) # planDrain bs (remaining - min (quantity b) remaining))"

section \<open>Movement reconstruction (StockAnalysisView.handleAnalyzeStockMovement)\<close>

subsection \<open>The six patterns\<close>


















subsection \<open>The range and the accumulation\<close>





record ItemMovement =
  itemId_m :: string
  itemName :: string
  itemUnit :: string
  quantityIn :: int
  quantityOut :: int












section \<open>Notions used in the statements\<close>

text \<open>
  What the service calls \<open>totalAvailable\<close>: the stock of the batches with a positive
  quantity.
\<close>

definition available :: "StockItem \<Rightarrow> int" where
  "available item = sum_list (map quantity (filter (\<lambda>b. quantity b > 0) (batches item)))"

text \<open>
  The snapshot \<open>rest\<close> is aligned with the current batches \<open>bs\<close> when the lookup by id
  finds, for each batch of the snapshot, a batch that still has the snapshot's quantity.
\<close>

definition aligned :: "Batch list \<Rightarrow> Batch list \<Rightarrow> bool" where
  "aligned rest bs = (\<forall>x\<in>set rest. \<exists>k. findIndex (\<lambda>b. id_batch b = id_batch x) bs = Some k
      \<and> quantity (bs ! k) = quantity x)"

text \<open>A note formatter that returns a line for every batch, or no formatter at all.\<close>

definition neverThrows :: "notesGenerator option \<Rightarrow> bool" where
  "neverThrows gen = (case gen of None \<Rightarrow> True | Some g \<Rightarrow> \<forall>b n u. g b n u \<noteq> None)"

text \<open>
  A batch drained by \<open>n\<close>: its quantity is reduced by \<open>n\<close> and, with a formatter, the line
  the formatter returns for the drained batch is appended to its notes.
\<close>

definition drainedTo :: "notesGenerator option \<Rightarrow> string \<Rightarrow> Batch \<Rightarrow> int \<Rightarrow> Batch \<Rightarrow> bool" where
  "drainedTo gen u old n new =
     (case gen of
        None \<Rightarrow> new = old\<lparr>quantity := quantity old - n\<rparr>
      | Some g \<Rightarrow>
          (\<exists>line. g (old\<lparr>quantity := quantity old - n\<rparr>) n u = Some line
             \<and> new = old\<lparr>quantity := quantity old - n,
                          notes_batch := Some (appendNote (notes_batch old) line)\<rparr>))"

text \<open>The quantity that the allocations take from the batch \<open>bid\<close>.\<close>

definition allocOf :: "affectedBatches \<Rightarrow> string \<Rightarrow> int" where
  "allocOf affected bid = sum_list (map snd (filter (\<lambda>(b, n). b = bid) affected))"

text \<open>
  The item \<open>new\<close> is the item \<open>old\<close> with the allocations drained from it: batch by batch,
  the quantity is the earlier one less what the allocations take from that batch, and the
  id, the expiry date, the supplier and the date of addition are the earlier ones;
  \<open>lastUpdated\<close> is today and the other fields of the item are the earlier ones.  (What
  happens to the notes is said by \<open>drainedTo\<close>.)
\<close>

definition drainedItem :: "StockItem \<Rightarrow> affectedBatches \<Rightarrow> string \<Rightarrow> StockItem \<Rightarrow> bool" where
  "drainedItem old affected today new =
     (new = old\<lparr>batches := batches new, lastUpdated := today\<rparr>
      \<and> list_all2 (\<lambda>b b'. quantity b' = quantity b - allocOf affected (id_batch b)
                         \<and> id_batch b' = id_batch b \<and> expiryDate b' = expiryDate b
                         \<and> supplier b' = supplier b \<and> dateAdded b' = dateAdded b)
           (batches old) (batches new))"

text \<open>
  The FEFO order in the words of the specification: by \<open>expiryDate\<close> ascending, a batch
  without \<open>expiryDate\<close> after every batch that has one, ties (equal expiry, or both without)
  by \<open>dateAdded\<close> ascending.  Dates are compared as ISO strings.
\<close>

definition fefoBefore :: "Batch \<Rightarrow> Batch \<Rightarrow> bool" where
  "fefoBefore a b =
     (if truthy (expiryDate a) then
        (if truthy (expiryDate b) then
           strOf (expiryDate a) < strOf (expiryDate b)
           \<or> (strOf (expiryDate a) = strOf (expiryDate b) \<and> dateAdded a \<le> dateAdded b)
         else True)
      else \<not> truthy (expiryDate b) \<and> dateAdded a \<le> dateAdded b)"

text \<open>The dates of a batch are well formed.\<close>

definition validBatchDates :: "Batch \<Rightarrow> bool" where
  "validBatchDates b = (validDate (dateAdded b) \<and> (truthy (expiryDate b) \<longrightarrow> validDate (strOf (expiryDate b))))"

text \<open>
  The expiry dates that count for \<open>soonestExpiry\<close>: of batches with a positive quantity,
  present (not empty) and not strictly before today.
\<close>

definition eligibleExpiries :: "string \<Rightarrow> StockItem \<Rightarrow> string set" where
  "eligibleExpiries today item =
     {e. \<exists>b\<in>set (batches item). quantity b > 0 \<and> expiryDate b = Some e \<and> e \<noteq> [] \<and> \<not> e < today}"

text \<open>The item without its batches of quantity 0 and without its batches expired before today.\<close>

definition withoutSpentOrExpired :: "string \<Rightarrow> StockItem \<Rightarrow> StockItem" where
  "withoutSpentOrExpired today item =
     item\<lparr>batches := filter (\<lambda>b. \<not> (quantity b = 0 \<or> (truthy (expiryDate b) \<and> strOf (expiryDate b) < today)))
                         (batches item)\<rparr>"

text \<open>
  An entry that the hook turns down before it calls the service: the item is not in the
  React state, the quantity is not positive, or it exceeds the item's total quantity.
\<close>

definition entryInvalid :: "StockItem list \<Rightarrow> BulkReleaseItemEntry \<Rightarrow> bool" where
  "entryInvalid allItemsState entry =
     (case find (\<lambda>item. id_item item = itemId entry) allItemsState of
        None \<Rightarrow> True
      | Some currentItem \<Rightarrow>
          quantityReleased entry \<le> 0 \<or> quantityReleased entry > getTotalQuantity currentItem)"

text \<open>
  An entry that is turned down, by the hook or by the service it calls: the entry is
  invalid for the hook, or the item is not in the persisted collection, or the quantity
  exceeds the stock of the item's batches with a positive quantity.
\<close>

definition entryRefused :: "StockItem list \<Rightarrow> storage \<Rightarrow> BulkReleaseItemEntry \<Rightarrow> bool" where
  "entryRefused allItemsState items entry =
     (entryInvalid allItemsState entry
      \<or> (case findIndex (\<lambda>item. id_item item = itemId entry) items of
            None \<Rightarrow> True
          | Some k \<Rightarrow> available (items ! k) < quantityReleased entry))"

text \<open>The payload with other entries.\<close>

definition withEntries ::
  "ProcessBulkStockReleasePayload \<Rightarrow> BulkReleaseItemEntry list \<Rightarrow> ProcessBulkStockReleasePayload" where
  "withEntries payload entries = payload\<lparr>itemsToRelease := entries\<rparr>"

subsection \<open>The reconstruction as sums over the note lines\<close>

















text \<open>
  The allocations of every processed entry sum to its quantity; the batch ids of every
  stored item are unique within the item.
\<close>

definition sumsOk :: "processedItem list \<Rightarrow> bool" where
  "sumsOk processed = (\<forall>(u, q, a)\<in>set processed. sum_list (map snd a) = q)"

definition idsDistinct :: "storage \<Rightarrow> bool" where
  "idsDistinct items = (\<forall>item\<in>set items. distinct (map id_batch (batches item)))"

section \<open>Example data\<close>

text \<open>
  The item of the specification's FEFO example: an undated batch of 10 followed by a batch
  of 10 that expires on 2025-03-01.
\<close>

definition undatedBatch :: Batch where
  "undatedBatch = \<lparr>id_batch = ''b1'', quantity = 10, expiryDate = None, supplier = None,
     dateAdded = ''2025-01-10'', notes_batch = None\<rparr>"

definition datedBatch :: Batch where
  "datedBatch = \<lparr>id_batch = ''b2'', quantity = 10, expiryDate = Some ''2025-03-01'', supplier = None,
     dateAdded = ''2025-01-20'', notes_batch = Some ''[Stock Addition - 2025-01-20]: Added 10 packs.''\<rparr>"

definition gauze :: StockItem where
  "gauze = \<lparr>id_item = ''A'', name = ''Gauze Swabs 4x4'', category = GENERAL_SUPPLIES,
     unit = ''packs'', minThreshold = 50, batches = [undatedBatch, datedBatch],
     lastUpdated = ''2025-01-20'', notes_item = None, originCountry = None\<rparr>"

text \<open>Common details of a bulk release, and a batch addition of quantity \<open>-5\<close>.\<close>

definition ward3 :: BulkReleaseCommonDetails where
  "ward3 = \<lparr>releasedTo = ''Ward 3'', reason = Some ''Surgery'', releaseDate = None\<rparr>"

definition minusFive :: BatchData where
  "minusFive = \<lparr>quantity_data = - 5, expiryDate_data = None, supplier_data = None, notes_data = None\<rparr>"

definition detailsMinusFive :: AddBatchDetails where
  "detailsMinusFive = \<lparr>quantityAdded = - 5, expiryDate_details = None, supplier_details = None, batchNotes = None\<rparr>"

definition negativeBatch :: Batch where
  "negativeBatch = \<lparr>id_batch = ''n1'', quantity = - 5, expiryDate = None, supplier = None,
     dateAdded = ''2025-02-01'', notes_batch = Some ''[Stock Addition - 2025-02-01]: Added -5 packs.''\<rparr>"

text \<open>
  The bulk release of the specification: 5 of item A and 999999 of item B, which has 10, and
  item A as the release leaves it.
\<close>

definition vialsBatch :: Batch where
  "vialsBatch = \<lparr>id_batch = ''p1'', quantity = 10, expiryDate = Some ''2025-08-01'',
     supplier = Some ''PharmaDirect'', dateAdded = ''2025-01-05'',
     notes_batch = Some ''[Initial Stock - 2025-01-05]: Added 10 vials. Batch PPL-001''\<rparr>"

definition propofol :: StockItem where
  "propofol = \<lparr>id_item = ''B'', name = ''Propofol 200mg/20ml'', category = PHARMACEUTICALS,
     unit = ''vials'', minThreshold = 5, batches = [vialsBatch],
     lastUpdated = ''2025-01-05'', notes_item = None, originCountry = None\<rparr>"

definition bulkPayload :: ProcessBulkStockReleasePayload where
  "bulkPayload = \<lparr>commonDetails_payload = ward3,
     itemsToRelease = [\<lparr>itemId = ''A'', quantityReleased = 5\<rparr>, \<lparr>itemId = ''B'', quantityReleased = 999999\<rparr>]\<rparr>"

text \<open>The same entries with the failing one first.\<close>

definition failingFirst :: ProcessBulkStockReleasePayload where
  "failingFirst = \<lparr>commonDetails_payload = ward3,
     itemsToRelease = [\<lparr>itemId = ''B'', quantityReleased = 999999\<rparr>, \<lparr>itemId = ''A'', quantityReleased = 5\<rparr>]\<rparr>"

definition gauzeReleased :: StockItem where
  "gauzeReleased = gauze\<lparr>batches :=
       [undatedBatch,
        datedBatch\<lparr>quantity := 5, notes_batch := Some (''[Stock Addition - 2025-01-20]: Added 10 packs.'' @ [CHR 0x0A] @ ''[Bulk Stock Release - 2025-02-01 | Voucher: VOUCHER-17]: Released 5 packs to '' @ [CHR 0x22] @ ''Ward 3'' @ [CHR 0x22] @ '' from batch ID b2. Reason: Surgery.'')\<rparr>],
       lastUpdated := ''2025-02-01''\<rparr>"








section \<open>Lists, lookups and the sort\<close>

lemma findIndex_Some_iff:
  "findIndex P xs = Some k \<longleftrightarrow> k < length xs \<and> P (xs ! k) \<and> (\<forall>j<k. \<not> P (xs ! j))"
proof (induction xs arbitrary: k)
  case Nil
  then show ?case by simp
next
  case (Cons x xs)
  show ?case
  proof (cases "P x")
    case True
    then show ?thesis by (cases k) auto
  next
    case False
    show ?thesis
    proof (cases k)
      case 0
      with False show ?thesis by auto
    next
      case (Suc n)
      with False Cons.IH [of n] show ?thesis
        by (auto simp: less_Suc_eq_0_disj)
    qed
  qed
qed

lemma findIndex_None_iff: "findIndex P xs = None \<longleftrightarrow> (\<forall>x\<in>set xs. \<not> P x)"
  by (induction xs) auto

lemma findIndex_update:
  "k < length xs \<Longrightarrow> P y = P (xs ! k) \<Longrightarrow> findIndex P (xs[k := y]) = findIndex P xs"
proof (induction xs arbitrary: k)
  case Nil
  then show ?case by simp
next
  case (Cons x xs)
  then show ?case by (cases k) auto
qed

lemma mset_insertSorted: "mset (insertSorted c x ys) = add_mset x (mset ys)"
  by (induction ys) auto

lemma mset_arraySort: "mset (arraySort c xs) = mset xs"
  unfolding arraySort_def by (induction xs) (auto simp: mset_insertSorted)

lemma set_arraySort: "set (arraySort c xs) = set xs"
  using mset_arraySort [of c xs] by (metis set_mset_mset)

lemma foldl_quantity: "foldl (\<lambda>s b. s + quantity b) a xs = a + sum_list (map quantity xs)"
  by (induction xs arbitrary: a) auto

lemma sum_list_map_update:
  fixes g :: "'a \<Rightarrow> int"
  assumes "k < length xs"
  shows "sum_list (map g (xs[k := y])) = sum_list (map g xs) - g (xs ! k) + g y"
  using assms
proof (induction xs arbitrary: k)
  case Nil
  then show ?case by simp
next
  case (Cons x xs)
  then show ?case by (cases k) auto
qed


lemma sum_list_arraySort: "sum_list (map f (arraySort c xs)) = (sum_list (map f xs) :: int)"
proof -
  have "mset (map f (arraySort c xs)) = mset (map f xs)"
    by (simp add: mset_arraySort)
  then show ?thesis by (metis sum_mset_sum_list)
qed

lemma distinct_map_arraySort: "distinct (map f (arraySort c xs)) = distinct (map f xs)"
proof -
  have "mset (map f (arraySort c xs)) = mset (map f xs)"
    by (simp add: mset_arraySort)
  then show ?thesis by (rule mset_eq_imp_distinct_iff)
qed

lemma sum_planDrain:
  "0 \<le> r \<Longrightarrow> \<forall>b\<in>set xs. 0 \<le> quantity b \<Longrightarrow> r \<le> sum_list (map quantity xs)
    \<Longrightarrow> sum_list (map snd (planDrain xs r)) = r"
proof (induction xs arbitrary: r)
  case Nil
  then show ?case by simp
next
  case (Cons b xs)
  show ?case
  proof (cases "r \<le> 0")
    case True
    with Cons.prems show ?thesis by simp
  next
    case False
    have nonneg: "0 \<le> sum_list (map quantity xs)"
      using Cons.prems(2) by (intro sum_list_nonneg) auto
    have "r - min (quantity b) r \<le> sum_list (map quantity xs)"
      using Cons.prems(3) nonneg by (auto simp: min_def)
    moreover have "0 \<le> r - min (quantity b) r" by simp
    ultimately have "sum_list (map snd (planDrain xs (r - min (quantity b) r))) = r - min (quantity b) r"
      using Cons.prems(2) by (intro Cons.IH) auto
    with False show ?thesis by simp
  qed
qed

lemma planDrain_bounded:
  "(i, n) \<in> set (planDrain xs r) \<Longrightarrow> \<exists>b\<in>set xs. id_batch b = i \<and> n \<le> quantity b"
proof (induction xs arbitrary: r)
  case Nil
  then show ?case by simp
next
  case (Cons b xs)
  show ?case
  proof (cases "r \<le> 0")
    case True
    with Cons.prems show ?thesis by simp
  next
    case False
    with Cons.prems have "(i, n) = (id_batch b, min (quantity b) r)
        \<or> (i, n) \<in> set (planDrain xs (r - min (quantity b) r))" by simp
    then show ?thesis
    proof
      assume "(i, n) = (id_batch b, min (quantity b) r)"
      then show ?thesis by auto
    next
      assume "(i, n) \<in> set (planDrain xs (r - min (quantity b) r))"
      from Cons.IH [OF this] show ?thesis by auto
    qed
  qed
qed

lemma aligned_step:
  assumes al: "aligned (x # rest) bs" and d: "distinct (map id_batch (x # rest))"
    and k: "findIndex (\<lambda>b. id_batch b = id_batch x) bs = Some k" and y: "id_batch y = id_batch (bs ! k)"
  shows "aligned rest (bs[k := y])"
  unfolding aligned_def
proof
  fix z assume z: "z \<in> set rest"
  from k have kl: "k < length bs" and kid: "id_batch (bs ! k) = id_batch x"
    by (auto simp: findIndex_Some_iff)
  from z d have ne: "id_batch z \<noteq> id_batch x" by (metis distinct.simps(2) image_eqI list.simps(9) set_map)
  from al z obtain j where j: "findIndex (\<lambda>b. id_batch b = id_batch z) bs = Some j"
    and q: "quantity (bs ! j) = quantity z" by (auto simp: aligned_def)
  have "findIndex (\<lambda>b. id_batch b = id_batch z) (bs[k := y]) = findIndex (\<lambda>b. id_batch b = id_batch z) bs"
    using kl y by (intro findIndex_update) auto
  moreover have "j \<noteq> k" using j kid ne by (auto simp: findIndex_Some_iff)
  ultimately show "\<exists>k'. findIndex (\<lambda>b. id_batch b = id_batch z) (bs[k := y]) = Some k'
      \<and> quantity (bs[k := y] ! k') = quantity z"
    using j q by auto
qed

lemma releaseLoop_plan:
  "releaseLoop gen u rest (bs, r, aff) = Some (bs', r', aff') \<Longrightarrow> distinct (map id_batch rest)
    \<Longrightarrow> aligned rest bs \<Longrightarrow> aff' = aff @ planDrain rest r"
proof (induction rest arbitrary: bs r aff)
  case Nil
  then show ?case by simp
next
  case (Cons x rest)
  show ?case
  proof (cases "r \<le> 0")
    case True
    with Cons.prems show ?thesis by simp
  next
    case False
    from Cons.prems(3) obtain k where k: "findIndex (\<lambda>b. id_batch b = id_batch x) bs = Some k"
      and q: "quantity (bs ! k) = quantity x" by (auto simp: aligned_def)
    define can where "can = min (quantity x) r"
    define drained where "drained = (bs ! k)\<lparr>quantity := quantity (bs ! k) - can\<rparr>"
    have d: "distinct (map id_batch rest)" using Cons.prems(2) by simp
    show ?thesis
    proof (cases gen)
      case None
      have al: "aligned rest (bs[k := drained])"
        using Cons.prems(3,2) k by (rule aligned_step) (simp add: drained_def)
      from Cons.prems(1) False k q None
      have "releaseLoop gen u rest (bs[k := drained], r - can, aff @ [(id_batch x, can)]) = Some (bs', r', aff')"
        by (simp add: Let_def can_def drained_def)
      from Cons.IH [OF this d al] False show ?thesis by (simp add: can_def)
    next
      case (Some g)
      with Cons.prems(1) False k q obtain t where t: "g drained can u = Some t"
        by (auto simp: Let_def can_def drained_def split: option.splits)
      define noted where "noted = drained\<lparr>notes_batch := Some (appendNote (notes_batch drained) t)\<rparr>"
      have al: "aligned rest (bs[k := noted])"
        using Cons.prems(3,2) k by (rule aligned_step) (simp add: noted_def drained_def)
      from Cons.prems(1) False k q Some t
      have "releaseLoop gen u rest (bs[k := noted], r - can, aff @ [(id_batch x, can)]) = Some (bs', r', aff')"
        by (simp add: Let_def can_def drained_def noted_def)
      from Cons.IH [OF this d al] False show ?thesis by (simp add: can_def)
    qed
  qed
qed

section \<open>Calendar dates: the order of the strings is the order of the times\<close>

lemma isDigit_cases: "isDigit c \<Longrightarrow> 0 \<le> digitVal c \<and> digitVal c \<le> 9"
  by (auto simp: isDigit_def digitVal_def)

lemma digit_less: "c < c' \<longleftrightarrow> digitVal c < digitVal c'"
  by (simp add: less_char_def digitVal_def)

lemma digit_eq: "c = c' \<longleftrightarrow> digitVal c = digitVal c'"
proof
  assume "digitVal c = digitVal c'"
  then have "(of_char c :: nat) = of_char c'" by (simp add: digitVal_def)
  then show "c = c'" by (simp only: of_char_eq_iff)
qed simp

lemma two_digits:
  fixes a b a' b' :: int
  assumes "0 \<le> b" "b \<le> 9" "0 \<le> b'" "b' \<le> 9"
  shows "10 * a + b < 10 * a' + b' \<longleftrightarrow> a < a' \<or> a = a' \<and> b < b'"
  using assms by arith

lemma two_digits_eq:
  fixes a b a' b' :: int
  assumes "0 \<le> b" "b \<le> 9" "0 \<le> b'" "b' \<le> 9"
  shows "10 * a + b = 10 * a' + b' \<longleftrightarrow> a = a' \<and> b = b'"
proof
  assume eq: "10 * a + b = 10 * a' + b'"
  have "\<not> (10 * a + b < 10 * a' + b')" "\<not> (10 * a' + b' < 10 * a + b)" using eq by simp_all
  then have "\<not> (a < a' \<or> a = a' \<and> b < b')" "\<not> (a' < a \<or> a' = a \<and> b' < b)"
    using two_digits [OF assms] two_digits [OF assms(3,4,1,2)] by blast+
  then show "a = a' \<and> b = b'" by auto
qed simp

lemma ceil_div_step:
  fixes y n :: int
  assumes "0 < n"
  shows "(y + n) div n = (y + (n - 1)) div n + (if y mod n = 0 then 1 else 0)"
proof -
  have n0: "n \<noteq> 0" using assms by simp
  have l: "(y + n) div n = y div n + 1"
    using div_add_self2 [OF n0, of y] by simp
  have "y + (n - 1) = (y mod n + (n - 1)) + (y div n) * n" by simp
  then have "(y + (n - 1)) div n = ((y mod n + (n - 1)) + (y div n) * n) div n" by simp
  also have "\<dots> = y div n + (y mod n + (n - 1)) div n"
    using div_mult_self1 [OF n0, of "y mod n + (n - 1)" "y div n"] by (simp add: mult.commute)
  finally have r: "(y + (n - 1)) div n = y div n + (y mod n + (n - 1)) div n" .
  show ?thesis
  proof (cases "y mod n = 0")
    case True
    then have "(y mod n + (n - 1)) div n = 0" using assms by (simp add: div_pos_pos_trivial)
    with l r True show ?thesis by simp
  next
    case False
    define z where "z = y mod n - 1"
    have "0 \<le> y mod n" "y mod n < n" using assms by simp_all
    with False have b: "0 \<le> z" "z < n" by (auto simp: z_def)
    have "y mod n + (n - 1) = z + n" by (simp add: z_def)
    then have "(y mod n + (n - 1)) div n = (z + n) div n" by (rule arg_cong)
    also have "\<dots> = z div n + 1" by (rule div_add_self2 [OF n0])
    also have "\<dots> = 1" using b by (simp add: div_pos_pos_trivial)
    finally show ?thesis using l r False by simp
  qed
qed

lemma ceil_div_step':
  fixes y n m :: int
  assumes "0 < n" "m = n - 1"
  shows "(y + n) div n = (y + m) div n + (if y mod n = 0 then 1 else 0)"
  unfolding assms(2) using assms(1) by (rule ceil_div_step)

lemma div4_step: "((y::int) + 4) div 4 = (y + 3) div 4 + (if y mod 4 = 0 then 1 else 0)"
  by (rule ceil_div_step') simp_all

lemma div100_step: "((y::int) + 100) div 100 = (y + 99) div 100 + (if y mod 100 = 0 then 1 else 0)"
  by (rule ceil_div_step') simp_all

lemma div400_step: "((y::int) + 400) div 400 = (y + 399) div 400 + (if y mod 400 = 0 then 1 else 0)"
  by (rule ceil_div_step') simp_all

lemma mod400_mod100: "(y::int) mod 400 = 0 \<Longrightarrow> y mod 100 = 0"
  unfolding mod_eq_0_iff_dvd by (erule dvd_trans [rotated]) simp

lemma mod100_mod4: "(y::int) mod 100 = 0 \<Longrightarrow> y mod 4 = 0"
  unfolding mod_eq_0_iff_dvd by (erule dvd_trans [rotated]) simp

lemma daysBeforeYear_Suc: "daysBeforeYear (y + 1) = daysBeforeYear y + 365 + (if leapYear y then 1 else 0)"
proof -
  define A B C where "A = (y + 3) div 4" and "B = (y + 99) div 100" and "C = (y + 399) div 400"
  define p q r where "p = (y mod 4 = 0)" and "q = (y mod 100 = 0)" and "r = (y mod 400 = 0)"
  have "y + 1 + 3 = y + 4" "y + 1 + 99 = y + 100" "y + 1 + 399 = y + 400" by simp_all
  then have 1: "daysBeforeYear (y + 1) = 365 * (y + 1) + (y + 4) div 4 - (y + 100) div 100 + (y + 400) div 400"
    unfolding daysBeforeYear_def by (simp only:)
  have 2: "daysBeforeYear y = 365 * y + A - B + C"
    unfolding daysBeforeYear_def A_def B_def C_def by (rule refl)
  have 3: "leapYear y = (p \<and> (\<not> q \<or> r))" unfolding leapYear_def p_def q_def r_def by (rule refl)
  have a: "(y + 4) div 4 = A + (if p then 1 else 0)" unfolding A_def p_def by (rule div4_step)
  have b: "(y + 100) div 100 = B + (if q then 1 else 0)" unfolding B_def q_def by (rule div100_step)
  have c: "(y + 400) div 400 = C + (if r then 1 else 0)" unfolding C_def r_def by (rule div400_step)
  have d: "r \<Longrightarrow> q" unfolding q_def r_def by (rule mod400_mod100)
  have e: "q \<Longrightarrow> p" unfolding q_def p_def by (rule mod100_mod4)
  have "365 * (y + 1) + (A + (if p then 1 else 0)) - (B + (if q then 1 else 0)) + (C + (if r then 1 else 0))
      = 365 * y + A - B + C + 365 + (if p \<and> (\<not> q \<or> r) then 1 else (0::int))"
    using d e by (cases p; cases q; cases r) simp_all
  then show ?thesis unfolding 1 2 3 a b c .
qed

lemma daysBeforeYear_mono:
  assumes "y < y'"
  shows "daysBeforeYear y + 365 + (if leapYear y then 1 else 0) \<le> daysBeforeYear y'"
proof -
  from assms have "y + 1 \<le> y'" by simp
  then show ?thesis
  proof (induction y' rule: int_ge_induct)
    case base
    show ?case by (simp only: daysBeforeYear_Suc order_refl)
  next
    case (step i)
    have "daysBeforeYear i \<le> daysBeforeYear (i + 1)"
      by (simp only: daysBeforeYear_Suc split: if_split) simp
    with step.IH show ?case by (rule order_trans)
  qed
qed

lemma month_cases:
  assumes "1 \<le> m" "m \<le> 12"
  shows "m = 1 \<or> m = 2 \<or> m = 3 \<or> m = 4 \<or> m = 5 \<or> m = 6 \<or> m = 7 \<or> m = 8 \<or> m = 9 \<or> m = 10 \<or> m = 11 \<or> m = (12::int)"
proof -
  have "[1..12] = [1, 2, 3, 4, 5, 6, 7, 8, 9, 10, 11, 12::int]"
    by (simp add: upto_rec1)
  moreover have "m \<in> set [1..12]" using assms by simp
  ultimately have "m \<in> set [1, 2, 3, 4, 5, 6, 7, 8, 9, 10, 11, 12::int]" by (simp only:)
  then show ?thesis by simp
qed

lemma daysBeforeMonth_next:
  assumes "1 \<le> m" "m \<le> 12"
  shows "daysBeforeMonth y m + daysInMonth y m
    = (if m = 12 then 365 + (if leapYear y then 1 else 0) else daysBeforeMonth y (m + 1))"
  using month_cases [OF assms] by (elim disjE) (simp_all add: daysBeforeMonth_def daysInMonth_def)

lemma daysInMonth_pos: "0 < daysInMonth y m"
  by (simp add: daysInMonth_def)

lemma daysBeforeMonth_nonneg:
  assumes "1 \<le> m" "m \<le> 12"
  shows "0 \<le> daysBeforeMonth y m"
  using month_cases [OF assms] by (elim disjE) (simp_all add: daysBeforeMonth_def)

lemma daysBeforeMonth_mono:
  assumes "1 \<le> m" "m < m'" "m' \<le> 12"
  shows "daysBeforeMonth y m + daysInMonth y m \<le> daysBeforeMonth y m'"
proof -
  from assms have "m + 1 \<le> m'" by simp
  then have "m' \<le> 12 \<longrightarrow> daysBeforeMonth y m + daysInMonth y m \<le> daysBeforeMonth y m'"
  proof (induction m' rule: int_ge_induct)
    case base
    show ?case using daysBeforeMonth_next [OF assms(1), of y] by simp
  next
    case (step i)
    show ?case
    proof
      assume le: "i + 1 \<le> 12"
      from step.hyps assms(1) have i: "1 \<le> i" "i \<le> 12" "i \<noteq> 12" using le by simp_all
      have "daysBeforeMonth y i + daysInMonth y i = daysBeforeMonth y (i + 1)"
        using daysBeforeMonth_next [OF i(1,2), of y] i(3) by simp
      then have "daysBeforeMonth y i \<le> daysBeforeMonth y (i + 1)"
        using daysInMonth_pos [of y i] by linarith
      moreover have "daysBeforeMonth y m + daysInMonth y m \<le> daysBeforeMonth y i"
        using step.IH i(2) by simp
      ultimately show "daysBeforeMonth y m + daysInMonth y m \<le> daysBeforeMonth y (i + 1)"
        by (rule order_trans [rotated])
    qed
  qed
  with assms(3) show ?thesis by simp
qed

lemma daysBeforeMonth_end:
  assumes "1 \<le> m" "m \<le> 12"
  shows "daysBeforeMonth y m + daysInMonth y m \<le> 365 + (if leapYear y then 1 else 0)"
proof (cases "m = 12")
  case True
  then show ?thesis using daysBeforeMonth_next [of m y] by simp
next
  case False
  with assms have "daysBeforeMonth y m + daysInMonth y m \<le> daysBeforeMonth y 12"
    by (intro daysBeforeMonth_mono) auto
  also have "\<dots> \<le> 365 + (if leapYear y then 1 else 0)"
    using daysBeforeMonth_next [of 12 y] by (simp add: daysInMonth_def)
  finally show ?thesis .
qed

lemma dayNumber_strict:
  assumes "validYMD y m d" "validYMD y' m' d'"
    and "y < y' \<or> y = y' \<and> (m < m' \<or> m = m' \<and> d < d')"
  shows "dayNumber y m d < dayNumber y' m' d'"
proof -
  from assms(1) have v: "1 \<le> m" "m \<le> 12" "1 \<le> d" "d \<le> daysInMonth y m" by (auto simp: validYMD_def)
  from assms(2) have v': "1 \<le> m'" "m' \<le> 12" "1 \<le> d'" "d' \<le> daysInMonth y' m'" by (auto simp: validYMD_def)
  consider "y < y'" | "y = y'" "m < m'" | "y = y'" "m = m'" "d < d'" using assms(3) by blast
  then show ?thesis
  proof cases
    case 1
    have "daysBeforeMonth y m + d \<le> 365 + (if leapYear y then 1 else 0)"
      using daysBeforeMonth_end [OF v(1,2), of y] v(4) by linarith
    moreover have "daysBeforeYear y + 365 + (if leapYear y then 1 else 0) \<le> daysBeforeYear y'"
      using 1 by (rule daysBeforeYear_mono)
    moreover have "0 \<le> daysBeforeMonth y' m'" using v'(1,2) by (rule daysBeforeMonth_nonneg)
    ultimately show ?thesis unfolding dayNumber_def using v'(3) by linarith
  next
    case 2
    have "daysBeforeMonth y m + daysInMonth y m \<le> daysBeforeMonth y m'"
      using v(1) 2(2) v'(2) by (rule daysBeforeMonth_mono)
    then show ?thesis unfolding dayNumber_def using 2(1) v(4) v'(3) by simp
  next
    case 3
    then show ?thesis unfolding dayNumber_def by simp
  qed
qed

lemma parseISODate_SomeD:
  assumes "parseISODate s = Some (y, m, d)"
  shows "\<exists>y1 y2 y3 y4 m1 m2 d1 d2.
     s = [y1, y2, y3, y4, CHR ''-'', m1, m2, CHR ''-'', d1, d2]
     \<and> list_all isDigit [y1, y2, y3, y4, m1, m2, d1, d2]
     \<and> y = 10 * (10 * (10 * digitVal y1 + digitVal y2) + digitVal y3) + digitVal y4
     \<and> m = 10 * digitVal m1 + digitVal m2 \<and> d = 10 * digitVal d1 + digitVal d2"
  using assms unfolding parseISODate_def
  by (simp split: list.splits if_splits)

lemma lex_less_digits:
  fixes y1 y2 y3 y4 m1 m2 d1 d2 :: char
  assumes da: "list_all isDigit [y1, y2, y3, y4, m1, m2, d1, d2]"
    and db: "list_all isDigit [z1, z2, z3, z4, n1, n2, e1, e2]"
    and less: "[y1, y2, y3, y4, CHR ''-'', m1, m2, CHR ''-'', d1, d2]
             < [z1, z2, z3, z4, CHR ''-'', n1, n2, CHR ''-'', e1, e2]"
  defines "y \<equiv> 10 * (10 * (10 * digitVal y1 + digitVal y2) + digitVal y3) + digitVal y4"
    and "z \<equiv> 10 * (10 * (10 * digitVal z1 + digitVal z2) + digitVal z3) + digitVal z4"
    and "m \<equiv> 10 * digitVal m1 + digitVal m2" and "n \<equiv> 10 * digitVal n1 + digitVal n2"
    and "d \<equiv> 10 * digitVal d1 + digitVal d2" and "e \<equiv> 10 * digitVal e1 + digitVal e2"
  shows "y < z \<or> y = z \<and> (m < n \<or> m = n \<and> d < e)"
proof -
  note b = isDigit_cases
  from da have a: "isDigit y1" "isDigit y2" "isDigit y3" "isDigit y4" "isDigit m1" "isDigit m2" "isDigit d1" "isDigit d2"
    by simp_all
  from db have c: "isDigit z1" "isDigit z2" "isDigit z3" "isDigit z4" "isDigit n1" "isDigit n2" "isDigit e1" "isDigit e2"
    by simp_all
  have ylt: "y < z \<longleftrightarrow> y1 < z1 \<or> y1 = z1 \<and> (y2 < z2 \<or> y2 = z2 \<and> (y3 < z3 \<or> y3 = z3 \<and> y4 < z4))"
    unfolding y_def z_def
    by (simp only: two_digits [OF b [THEN conjunct1] b [THEN conjunct2] b [THEN conjunct1] b [THEN conjunct2], OF a(4) a(4) c(4) c(4)]
        two_digits [OF b [THEN conjunct1] b [THEN conjunct2] b [THEN conjunct1] b [THEN conjunct2], OF a(3) a(3) c(3) c(3)]
        two_digits [OF b [THEN conjunct1] b [THEN conjunct2] b [THEN conjunct1] b [THEN conjunct2], OF a(2) a(2) c(2) c(2)]
        two_digits_eq [OF b [THEN conjunct1] b [THEN conjunct2] b [THEN conjunct1] b [THEN conjunct2], OF a(3) a(3) c(3) c(3)]
        two_digits_eq [OF b [THEN conjunct1] b [THEN conjunct2] b [THEN conjunct1] b [THEN conjunct2], OF a(2) a(2) c(2) c(2)]
        digit_less [symmetric] digit_eq [symmetric]) blast
  have yeq: "y = z \<longleftrightarrow> y1 = z1 \<and> y2 = z2 \<and> y3 = z3 \<and> y4 = z4"
    unfolding y_def z_def
    by (simp only: two_digits_eq [OF b [THEN conjunct1] b [THEN conjunct2] b [THEN conjunct1] b [THEN conjunct2], OF a(4) a(4) c(4) c(4)]
        two_digits_eq [OF b [THEN conjunct1] b [THEN conjunct2] b [THEN conjunct1] b [THEN conjunct2], OF a(3) a(3) c(3) c(3)]
        two_digits_eq [OF b [THEN conjunct1] b [THEN conjunct2] b [THEN conjunct1] b [THEN conjunct2], OF a(2) a(2) c(2) c(2)]
        digit_eq [symmetric] conj_assoc)
  have mlt: "m < n \<longleftrightarrow> m1 < n1 \<or> m1 = n1 \<and> m2 < n2"
    unfolding m_def n_def
    by (simp only: two_digits [OF b [THEN conjunct1] b [THEN conjunct2] b [THEN conjunct1] b [THEN conjunct2], OF a(6) a(6) c(6) c(6)]
        digit_less [symmetric] digit_eq [symmetric])
  have meq: "m = n \<longleftrightarrow> m1 = n1 \<and> m2 = n2"
    unfolding m_def n_def
    by (simp only: two_digits_eq [OF b [THEN conjunct1] b [THEN conjunct2] b [THEN conjunct1] b [THEN conjunct2], OF a(6) a(6) c(6) c(6)]
        digit_eq [symmetric])
  have dlt: "d < e \<longleftrightarrow> d1 < e1 \<or> d1 = e1 \<and> d2 < e2"
    unfolding d_def e_def
    by (simp only: two_digits [OF b [THEN conjunct1] b [THEN conjunct2] b [THEN conjunct1] b [THEN conjunct2], OF a(8) a(8) c(8) c(8)]
        digit_less [symmetric] digit_eq [symmetric])
  from less have "y1 < z1 \<or> y1 = z1 \<and> (y2 < z2 \<or> y2 = z2 \<and> (y3 < z3 \<or> y3 = z3 \<and> (y4 < z4 \<or> y4 = z4 \<and>
      (m1 < n1 \<or> m1 = n1 \<and> (m2 < n2 \<or> m2 = n2 \<and> (d1 < e1 \<or> d1 = e1 \<and> d2 < e2))))))"
    by (simp only: Cons_less_Cons less_irrefl simp_thms)
  then show ?thesis unfolding ylt yeq mlt meq dlt by blast
qed

lemma getTime_SomeD:
  assumes "getTime s = Some t"
  shows "\<exists>y m d. parseISODate s = Some (y, m, d) \<and> validYMD y m d \<and> t = 86400000 * dayNumber y m d"
  using assms unfolding getTime_def validYMD_def
  by (auto split: option.splits if_splits)

lemma date_less_imp_time_less:
  assumes va: "validDate a" and vb: "validDate b" and less: "a < b"
  shows "timeOf a < timeOf b"
proof -
  from va obtain ta where ta: "getTime a = Some ta" by (auto simp: validDate_def)
  from vb obtain tb where tb: "getTime b = Some tb" by (auto simp: validDate_def)
  from getTime_SomeD [OF ta] obtain y m d where
    pa: "parseISODate a = Some (y, m, d)" and ya: "validYMD y m d" and ea: "ta = 86400000 * dayNumber y m d"
    by blast
  from getTime_SomeD [OF tb] obtain z n e where
    pb: "parseISODate b = Some (z, n, e)" and yb: "validYMD z n e" and eb: "tb = 86400000 * dayNumber z n e"
    by blast
  from parseISODate_SomeD [OF pa] obtain y1 y2 y3 y4 m1 m2 d1 d2 where
    a: "a = [y1, y2, y3, y4, CHR ''-'', m1, m2, CHR ''-'', d1, d2]"
    and da: "list_all isDigit [y1, y2, y3, y4, m1, m2, d1, d2]"
    and y: "y = 10 * (10 * (10 * digitVal y1 + digitVal y2) + digitVal y3) + digitVal y4"
    and m: "m = 10 * digitVal m1 + digitVal m2" and d: "d = 10 * digitVal d1 + digitVal d2"
    by blast
  from parseISODate_SomeD [OF pb] obtain z1 z2 z3 z4 n1 n2 e1 e2 where
    b: "b = [z1, z2, z3, z4, CHR ''-'', n1, n2, CHR ''-'', e1, e2]"
    and db: "list_all isDigit [z1, z2, z3, z4, n1, n2, e1, e2]"
    and z: "z = 10 * (10 * (10 * digitVal z1 + digitVal z2) + digitVal z3) + digitVal z4"
    and n: "n = 10 * digitVal n1 + digitVal n2" and e: "e = 10 * digitVal e1 + digitVal e2"
    by blast
  have "y < z \<or> y = z \<and> (m < n \<or> m = n \<and> d < e)"
    unfolding y z m n d e using da db less [unfolded a b] by (rule lex_less_digits)
  with ya yb have "dayNumber y m d < dayNumber z n e" by (rule dayNumber_strict)
  then show ?thesis by (simp add: timeOf_def ta tb ea eb)
qed

lemma date_less_iff:
  assumes "validDate a" "validDate b"
  shows "timeOf a < timeOf b \<longleftrightarrow> a < b"
proof
  assume t: "timeOf a < timeOf b"
  show "a < b"
  proof (rule ccontr)
    assume "\<not> a < b"
    then consider "a = b" | "b < a" by fastforce
    then show False
    proof cases
      case 1
      with t show False by simp
    next
      case 2
      with assms have "timeOf b < timeOf a" by (intro date_less_imp_time_less)
      with t show False by simp
    qed
  qed
next
  assume "a < b"
  with assms show "timeOf a < timeOf b" by (rule date_less_imp_time_less)
qed

lemma date_le_iff:
  assumes "validDate a" "validDate b"
  shows "timeOf a \<le> timeOf b \<longleftrightarrow> a \<le> b"
  using date_less_iff [OF assms(2,1)] by (simp add: not_less [symmetric])

lemma date_eq_iff:
  assumes "validDate a" "validDate b"
  shows "timeOf a = timeOf b \<longleftrightarrow> a = b"
  using date_le_iff [OF assms] date_le_iff [OF assms(2,1)] by (auto simp: order_eq_iff)

section \<open>The depletion loop follows the plan\<close>

lemma mset_sortedBatches: "mset (sortedBatches strategy bs) = mset (filter (\<lambda>b. quantity b > 0) bs)"
  by (simp add: sortedBatches_def mset_arraySort)

lemma set_sortedBatches: "set (sortedBatches strategy bs) = {b \<in> set bs. quantity b > 0}"
  using mset_sortedBatches [of strategy bs] by (metis set_filter set_mset_mset)

lemma totalAvailable_eq:
  "foldl (\<lambda>s b. s + quantity b) 0 (sortedBatches strategy (batches item)) = available item"
proof -
  have "mset (map quantity (sortedBatches strategy (batches item)))
      = mset (map quantity (filter (\<lambda>b. quantity b > 0) (batches item)))"
    by (simp add: mset_sortedBatches)
  then have "sum_list (map quantity (sortedBatches strategy (batches item))) = available item"
    unfolding available_def by (metis sum_mset_sum_list)
  then show ?thesis by (simp add: foldl_quantity)
qed

lemma available_nonneg: "0 \<le> available item"
  unfolding available_def by (rule sum_list_nonneg) auto

lemma available_total:
  assumes "\<forall>b\<in>set (batches item). 0 \<le> quantity b"
  shows "available item = getTotalQuantity item"
proof -
  have "sum_list (map quantity (filter (\<lambda>b. quantity b > 0) bs)) = sum_list (map quantity bs)"
    if "\<forall>b\<in>set bs. 0 \<le> quantity b" for bs :: "Batch list"
    using that by (induction bs) auto
  from this [OF assms] show ?thesis
    by (simp add: available_def getTotalQuantity_def foldl_quantity)
qed

lemma modify_unfold:
  assumes "findIndex (\<lambda>item. id_item item = i) items = Some k"
  shows "modifyItemBatchesForRelease today i q gen strategy items =
     (if available (items ! k) < q then (items, Rejected (NotEnoughStock (available (items ! k)) q))
      else (case releaseLoop gen (unit (items ! k)) (sortedBatches strategy (batches (items ! k)))
                  (batches (items ! k), q, []) of
              None \<Rightarrow> (items, Pending)
            | Some (bs, r, affected) \<Rightarrow>
                (items[k := (items ! k)\<lparr>batches := bs, lastUpdated := today\<rparr>],
                 Resolved ((items ! k)\<lparr>batches := bs, lastUpdated := today\<rparr>, affected))))"
  unfolding modifyItemBatchesForRelease_def assms
  by (simp add: Let_def totalAvailable_eq split: option.splits)

lemma releaseLoop_total:
  assumes "neverThrows gen"
  shows "\<exists>st'. releaseLoop gen u rest (bs, r, aff) = Some st'"
proof (induction rest arbitrary: bs r aff)
  case Nil
  then show ?case by simp
next
  case (Cons x rest)
  show ?case
  proof (cases gen)
    case None
    then show ?thesis  using Cons.IH
      by (simp add: Let_def split: option.splits)
  next
    case (Some g)
    with assms have g: "\<And>b n u. \<exists>t. g b n u = Some t" by (auto simp: neverThrows_def)
    show ?thesis
    proof (cases "r \<le> 0")
      case True
      then show ?thesis  by simp
    next
      case False
      show ?thesis
      proof (cases "findIndex (\<lambda>b. id_batch b = id_batch x) bs")
        case None
        with False show ?thesis  using Cons.IH by simp
      next
        case (Some k)
        define can where "can = min (quantity (bs ! k)) r"
        define drained where "drained = (bs ! k)\<lparr>quantity := quantity (bs ! k) - can\<rparr>"
        from g obtain t where t: "g drained can u = Some t" by blast
        show ?thesis  using False Some \<open>gen = Some g\<close> t Cons.IH
          by (simp add: Let_def can_def [symmetric] drained_def [symmetric])
      qed
    qed
  qed
qed

lemma findIndex_distinct:
  assumes "distinct (map f xs)" "x \<in> set xs"
  shows "\<exists>k. findIndex (\<lambda>b. f b = f x) xs = Some k \<and> xs ! k = x"
proof -
  from assms(2) obtain k where k: "k < length xs" "xs ! k = x" by (auto simp: in_set_conv_nth)
  have "\<not> f (xs ! j) = f x" if "j < k" for j
  proof
    assume "f (xs ! j) = f x"
    then have "map f xs ! j = map f xs ! k" using that k by simp
    moreover have "j < length (map f xs)" "k < length (map f xs)" using that k by simp_all
    ultimately have "j = k" using assms(1) by (simp only: nth_eq_iff_index_eq)
    with that show False by simp
  qed
  with k have "findIndex (\<lambda>b. f b = f x) xs = Some k" by (simp add: findIndex_Some_iff)
  with k show ?thesis by blast
qed

lemma aligned_sortedBatches:
  assumes "distinct (map id_batch bs)"
  shows "aligned (sortedBatches strategy bs) bs"
  unfolding aligned_def
proof
  fix x assume "x \<in> set (sortedBatches strategy bs)"
  then have "x \<in> set bs" by (simp add: set_sortedBatches)
  from findIndex_distinct [OF assms this] show "\<exists>k. findIndex (\<lambda>b. id_batch b = id_batch x) bs = Some k
      \<and> quantity (bs ! k) = quantity x" by auto
qed

lemma distinct_sortedBatches:
  assumes "distinct (map id_batch bs)"
  shows "distinct (map id_batch (sortedBatches strategy bs))"
proof -
  have "distinct (map id_batch (filter (\<lambda>b. quantity b > 0) bs))"
    using assms by (rule distinct_map_filter)
  moreover have "mset (map id_batch (sortedBatches strategy bs))
      = mset (map id_batch (filter (\<lambda>b. quantity b > 0) bs))"
    by (simp add: mset_sortedBatches)
  ultimately show ?thesis by (metis mset_eq_imp_distinct_iff)
qed

section \<open>Rejection of an excessive request, deletion\<close>

text \<open>
  Claim C3.  A request that exceeds the item's available stock is rejected with the
  not-enough-stock error and the persisted collection is unchanged: every batch quantity,
  every batch note and \<open>lastUpdated\<close> are as before.  The available stock is the stock of
  the batches with a positive quantity; it is \<open>getTotalQuantity\<close> when no quantity is
  negative.
\<close>

theorem release_insufficient_rejected:
  assumes found: "findIndex (\<lambda>item. id_item item = i) items = Some k"
  shows "(available (items ! k) < q \<longrightarrow>
            modifyItemBatchesForRelease today i q gen strategy items
              = (items, Rejected (NotEnoughStock (available (items ! k)) q)))
       \<and> ((\<forall>b\<in>set (batches (items ! k)). 0 \<le> quantity b) \<and> getTotalQuantity (items ! k) < q \<longrightarrow>
            modifyItemBatchesForRelease today i q gen strategy items
              = (items, Rejected (NotEnoughStock (getTotalQuantity (items ! k)) q)))"
  using available_total [of "items ! k"] by (auto simp: modify_unfold [OF found])

theorem release_insufficient_rejected_witness:
  "findIndex (\<lambda>item. id_item item = ''A'') [gauze] = Some 0
   \<and> list_all (\<lambda>b. 0 \<le> quantity b) (batches ([gauze] ! 0))
   \<and> getTotalQuantity ([gauze] ! 0) < 21 \<and> available ([gauze] ! 0) < 21
   \<and> modifyItemBatchesForRelease ''2025-02-01'' ''A'' 21 None FEFO [gauze]
         = ([gauze], Rejected (NotEnoughStock 20 21))"
proof -
  have h1: "findIndex (\<lambda>item. id_item item = ''A'') [gauze] = Some 0"
    by (simp add: gauze_def)
  have h2: "\<forall>b\<in>set (batches ([gauze] ! 0)). 0 \<le> quantity b"
    by (simp add: gauze_def undatedBatch_def datedBatch_def)
  have h3: "getTotalQuantity ([gauze] ! 0) = 20"
    by (simp add: getTotalQuantity_def gauze_def undatedBatch_def datedBatch_def)
  have h4: "available ([gauze] ! 0) = 20"
    by (simp add: available_def gauze_def undatedBatch_def datedBatch_def)
  from release_insufficient_rejected [OF h1, of 21 "''2025-02-01''" None FEFO] h1 h2 h3 h4
  show ?thesis by (simp add: list_all_iff)
qed

text \<open>
  Claim C10.  Deleting never reports an error.  The stored collection afterwards is the
  prior one without the items of that id; when the id is absent the collection is
  unchanged, and a second deletion of the same id changes nothing more.
\<close>

theorem deleteItem_absent_idempotent:
  "snd (deleteItem i items) = Resolved ()
   \<and> fst (deleteItem i items) = filter (\<lambda>item. id_item item \<noteq> i) items
   \<and> (i \<notin> id_item ` set items \<longrightarrow> fst (deleteItem i items) = items)
   \<and> fst (deleteItem i (fst (deleteItem i items))) = fst (deleteItem i items)"
proof -
  have "i \<notin> id_item ` set items \<Longrightarrow> filter (\<lambda>item. id_item item \<noteq> i) items = items"
    by (induction items) auto
  then show ?thesis by (auto simp: deleteItem_def)
qed

theorem deleteItem_absent_idempotent_witness:
  "''B'' \<notin> id_item ` set [gauze] \<and> fst (deleteItem ''B'' [gauze]) = [gauze]
   \<and> snd (deleteItem ''B'' [gauze]) = Resolved ()"
proof -
  have h: "''B'' \<notin> id_item ` set [gauze]" by (simp add: gauze_def)
  with deleteItem_absent_idempotent [of "''B''" "[gauze]"] show ?thesis by blast
qed

section \<open>Notes, allocations, the order of the candidates, soonest expiry, additions\<close>

lemma releaseLoop_effect:
  "releaseLoop gen u rest (bs, r, aff) = Some (bs', r', aff') \<Longrightarrow> distinct (map id_batch rest)
    \<Longrightarrow> aligned rest bs
    \<Longrightarrow> length bs' = length bs
      \<and> (\<forall>j<length bs. bs' ! j = bs ! j
            \<or> (\<exists>n. (id_batch (bs ! j), n) \<in> set (planDrain rest r) \<and> n \<le> quantity (bs ! j)
                  \<and> drainedTo gen u (bs ! j) n (bs' ! j)))"
proof (induction rest arbitrary: bs r aff)
  case Nil
  then show ?case by simp
next
  case (Cons x rest)
  show ?case
  proof (cases "r \<le> 0")
    case True
    with Cons.prems show ?thesis by simp
  next
    case False
    from Cons.prems(3) obtain k where k: "findIndex (\<lambda>b. id_batch b = id_batch x) bs = Some k"
      and q: "quantity (bs ! k) = quantity x" by (auto simp: aligned_def)
    from k have kl: "k < length bs" and kid: "id_batch (bs ! k) = id_batch x"
      by (auto simp: findIndex_Some_iff)
    define can where "can = min (quantity x) r"
    define drained where "drained = (bs ! k)\<lparr>quantity := quantity (bs ! k) - can\<rparr>"
    have d: "distinct (map id_batch rest)" using Cons.prems(2) by simp
    have plan: "planDrain (x # rest) r = (id_batch x, can) # planDrain rest (r - can)"
      using False by (simp add: can_def)
    have canle: "can \<le> quantity (bs ! k)" by (simp add: can_def q)
    obtain new where new: "drainedTo gen u (bs ! k) can new" "id_batch new = id_batch (bs ! k)"
      and loop: "releaseLoop gen u rest (bs[k := new], r - can, aff @ [(id_batch x, can)]) = Some (bs', r', aff')"
    proof (cases gen)
      case None
      from Cons.prems(1) False k q None
      have "releaseLoop gen u rest (bs[k := drained], r - can, aff @ [(id_batch x, can)]) = Some (bs', r', aff')"
        by (simp add: Let_def can_def drained_def)
      moreover have "drainedTo gen u (bs ! k) can drained" by (simp add: drainedTo_def None drained_def)
      moreover have "id_batch drained = id_batch (bs ! k)" by (simp add: drained_def)
      ultimately show ?thesis using that by blast
    next
      case (Some g)
      with Cons.prems(1) False k q obtain t where t: "g drained can u = Some t"
        by (auto simp: Let_def can_def drained_def split: option.splits)
      define noted where "noted = drained\<lparr>notes_batch := Some (appendNote (notes_batch drained) t)\<rparr>"
      from Cons.prems(1) False k q Some t
      have "releaseLoop gen u rest (bs[k := noted], r - can, aff @ [(id_batch x, can)]) = Some (bs', r', aff')"
        by (simp add: Let_def can_def drained_def noted_def)
      moreover have "drainedTo gen u (bs ! k) can noted"
        using t by (simp add: drainedTo_def Some drained_def noted_def)
      moreover have "id_batch noted = id_batch (bs ! k)" by (simp add: drained_def noted_def)
      ultimately show ?thesis using that by blast
    qed
    have al: "aligned rest (bs[k := new])"
      using Cons.prems(3,2) k new(2) by (rule aligned_step)
    from Cons.IH [OF loop d al]
    have len: "length bs' = length bs"
      and ih: "\<And>j. j < length bs \<Longrightarrow> bs' ! j = bs[k := new] ! j
            \<or> (\<exists>n. (id_batch (bs[k := new] ! j), n) \<in> set (planDrain rest (r - can))
                  \<and> n \<le> quantity (bs[k := new] ! j) \<and> drainedTo gen u (bs[k := new] ! j) n (bs' ! j))"
      by auto
    have "bs' ! j = bs ! j
            \<or> (\<exists>n. (id_batch (bs ! j), n) \<in> set (planDrain (x # rest) r) \<and> n \<le> quantity (bs ! j)
                  \<and> drainedTo gen u (bs ! j) n (bs' ! j))" if j: "j < length bs" for j
    proof (cases "j = k")
      case False
      with ih [OF j] show ?thesis unfolding plan by auto
    next
      case True
      have notin: "\<not> (\<exists>n. (id_batch new, n) \<in> set (planDrain rest (r - can)))"
      proof
        assume "\<exists>n. (id_batch new, n) \<in> set (planDrain rest (r - can))"
        then obtain n where "(id_batch new, n) \<in> set (planDrain rest (r - can))" by blast
        from planDrain_bounded [OF this] obtain b where "b \<in> set rest" "id_batch b = id_batch x"
          using new(2) kid by auto
        with Cons.prems(2) show False by (metis distinct.simps(2) image_eqI list.simps(9) set_map)
      qed
      from ih [OF j] True kl notin have "bs' ! k = new" by auto
      with new(1) canle kid True show ?thesis unfolding plan by auto
    qed
    with len show ?thesis by blast
  qed
qed




lemma timeDiff_valid:
  assumes "validDate a" "validDate b"
  shows "timeDiff a b = Some (timeOf a - timeOf b)"
  using assms by (auto simp: timeDiff_def timeOf_def validDate_def)

lemma compareFEFO_fefoBefore:
  assumes "validBatchDates a" "validBatchDates b"
  shows "(sortCompare compareFEFO a b \<le> 0) = fefoBefore a b"
proof -
  from assms have da: "validDate (dateAdded a)" and db: "validDate (dateAdded b)"
    by (simp_all add: validBatchDates_def)
  have added: "timeDiff (dateAdded a) (dateAdded b) = Some (timeOf (dateAdded a) - timeOf (dateAdded b))"
    using da db by (rule timeDiff_valid)
  have addedle: "(timeOf (dateAdded a) \<le> timeOf (dateAdded b)) = (dateAdded a \<le> dateAdded b)"
    using da db by (rule date_le_iff)
  show ?thesis
  proof (cases "truthy (expiryDate a)")
    case ta: True
    show ?thesis
    proof (cases "truthy (expiryDate b)")
      case tb: True
      from assms ta tb have ea: "validDate (strOf (expiryDate a))" and eb: "validDate (strOf (expiryDate b))"
        by (simp_all add: validBatchDates_def)
      have exp: "timeDiff (strOf (expiryDate a)) (strOf (expiryDate b))
          = Some (timeOf (strOf (expiryDate a)) - timeOf (strOf (expiryDate b)))"
        using ea eb by (rule timeDiff_valid)
      have cmp: "sortCompare compareFEFO a b
          = (if timeOf (strOf (expiryDate a)) - timeOf (strOf (expiryDate b)) \<noteq> 0
             then timeOf (strOf (expiryDate a)) - timeOf (strOf (expiryDate b))
             else timeOf (dateAdded a) - timeOf (dateAdded b))"
        by (simp add: compareFEFO_def sortCompare_def ta tb exp added Let_def)
      have bef: "fefoBefore a b = (strOf (expiryDate a) < strOf (expiryDate b)
           \<or> (strOf (expiryDate a) = strOf (expiryDate b) \<and> dateAdded a \<le> dateAdded b))"
        by (simp add: fefoBefore_def ta tb)
      show ?thesis
      proof (cases "timeOf (strOf (expiryDate a)) = timeOf (strOf (expiryDate b))")
        case True
        then have "strOf (expiryDate a) = strOf (expiryDate b)" using date_eq_iff [OF ea eb] by simp
        with True show ?thesis unfolding cmp bef by (simp add: addedle)
      next
        case False
        then have ne: "strOf (expiryDate a) \<noteq> strOf (expiryDate b)" by auto
        have "(timeOf (strOf (expiryDate a)) - timeOf (strOf (expiryDate b)) \<le> 0)
            = (strOf (expiryDate a) < strOf (expiryDate b))"
          using date_less_iff [OF ea eb] False by auto
        with False ne show ?thesis unfolding cmp bef by simp
      qed
    next
      case False
      with ta show ?thesis by (simp add: compareFEFO_def sortCompare_def fefoBefore_def)
    qed
  next
    case fa: False
    show ?thesis
    proof (cases "truthy (expiryDate b)")
      case True
      with fa show ?thesis by (simp add: compareFEFO_def sortCompare_def fefoBefore_def)
    next
      case False
      with fa show ?thesis
        by (simp add: compareFEFO_def sortCompare_def fefoBefore_def added addedle)
    qed
  qed
qed

lemma fefoBefore_total: "fefoBefore a b \<or> fefoBefore b a"
  by (auto simp: fefoBefore_def)

lemma fefoBefore_trans: "fefoBefore a b \<Longrightarrow> fefoBefore b c \<Longrightarrow> fefoBefore a c"
  by (auto simp: fefoBefore_def split: if_splits)

lemma set_insertSorted: "set (insertSorted c x ys) = insert x (set ys)"
  by (induction ys) auto

lemma sorted_wrt_insertSorted:
  assumes le: "\<And>a b. a \<in> A \<Longrightarrow> b \<in> A \<Longrightarrow> (sortCompare c a b \<le> 0) = R a b"
    and trans: "\<And>a b d. R a b \<Longrightarrow> R b d \<Longrightarrow> R a d"
    and total: "\<And>a b. R a b \<or> R b a"
    and x: "x \<in> A" and ys: "set ys \<subseteq> A" and sorted: "sorted_wrt R ys"
  shows "sorted_wrt R (insertSorted c x ys)"
  using ys sorted
proof (induction ys)
  case Nil
  then show ?case by simp
next
  case (Cons y ys)
  from Cons.prems have yA: "y \<in> A" and sub: "set ys \<subseteq> A" and s: "sorted_wrt R ys"
    and yall: "\<forall>z\<in>set ys. R y z" by auto
  show ?case
  proof (cases "sortCompare c x y \<le> 0")
    case True
    then have xy: "R x y" using le [OF x yA] by simp
    then have "\<forall>z\<in>set ys. R x z" using yall trans by blast
    with True xy Cons.prems show ?thesis by simp
  next
    case False
    then have "\<not> R x y" using le [OF x yA] by simp
    then have "R y x" using total by blast
    with False yall Cons.IH [OF sub s] show ?thesis by (simp add: set_insertSorted)
  qed
qed

lemma sorted_wrt_arraySort:
  assumes le: "\<And>a b. a \<in> A \<Longrightarrow> b \<in> A \<Longrightarrow> (sortCompare c a b \<le> 0) = R a b"
    and trans: "\<And>a b d. R a b \<Longrightarrow> R b d \<Longrightarrow> R a d"
    and total: "\<And>a b. R a b \<or> R b a"
    and xs: "set xs \<subseteq> A"
  shows "sorted_wrt R (arraySort c xs)"
  using xs
proof (induction xs)
  case Nil
  then show ?case by (simp add: arraySort_def)
next
  case (Cons x xs)
  then have x: "x \<in> A" and sub: "set xs \<subseteq> A" by auto
  have "set (arraySort c xs) \<subseteq> A" using sub by (simp add: set_arraySort)
  from sorted_wrt_insertSorted [of A c R, OF le trans total x this Cons.IH [OF sub]]
  show ?case by (simp add: arraySort_def)
qed

lemma planDrain_ids: "map fst (planDrain xs r) = take (length (planDrain xs r)) (map id_batch xs)"
  by (induction xs arbitrary: r) auto

lemma example_release:
  "modifyItemBatchesForRelease today ''A'' 15 None FEFO [gauze]
     = ([gauze\<lparr>batches := [undatedBatch\<lparr>quantity := 5\<rparr>, datedBatch\<lparr>quantity := 0\<rparr>], lastUpdated := today\<rparr>],
        Resolved (gauze\<lparr>batches := [undatedBatch\<lparr>quantity := 5\<rparr>, datedBatch\<lparr>quantity := 0\<rparr>],
                        lastUpdated := today\<rparr>,
                  [(''b2'', 10), (''b1'', 5)]))"
  by (simp add: modifyItemBatchesForRelease_def gauze_def undatedBatch_def datedBatch_def
      sortedBatches_def arraySort_def compareFEFO_def sortCompare_def truthy_def Let_def)

lemmas date_eval = validDate_def getTime_def validYMD_def parseISODate_def isDigit_def
  digitVal_def daysInMonth_def leapYear_def

lemma modify_resolves:
  assumes found: "findIndex (\<lambda>item. id_item item = i) items = Some k"
    and q: "q \<le> available (items ! k)" and gen: "neverThrows gen"
  shows "\<exists>items' updatedItem affected.
      modifyItemBatchesForRelease today i q gen strategy items = (items', Resolved (updatedItem, affected))"
proof -
  from releaseLoop_total [OF gen] obtain bs r affected where
    "releaseLoop gen (unit (items ! k)) (sortedBatches strategy (batches (items ! k)))
       (batches (items ! k), q, []) = Some (bs, r, affected)"
    by (metis prod_cases3)
  with q show ?thesis by (simp add: modify_unfold [OF found])
qed

lemma neverThrows_releaseOpNotes:
  assumes "releaseDateStr today (releaseDate common) \<noteq> None"
  shows "neverThrows (Some (releaseOpNotes today vid common))"
  using assms by (auto simp: neverThrows_def releaseOpNotes_def)

lemma releaseLoop_ids:
  "releaseLoop gen u rest (bs, r, aff) = Some (bs', r', aff') \<Longrightarrow> map id_batch bs' = map id_batch bs"
proof (induction rest arbitrary: bs r aff)
  case Nil
  then show ?case by simp
next
  case (Cons x rest)
  show ?case
  proof (cases "r \<le> 0")
    case True
    with Cons.prems show ?thesis by simp
  next
    case False
    show ?thesis
    proof (cases "findIndex (\<lambda>b. id_batch b = id_batch x) bs")
      case None
      with False Cons show ?thesis by simp
    next
      case (Some k)
      then have kl: "k < length bs" by (simp add: findIndex_Some_iff)
      define can where "can = min (quantity (bs ! k)) r"
      define drained where "drained = (bs ! k)\<lparr>quantity := quantity (bs ! k) - can\<rparr>"
      have upd: "map id_batch (bs[k := new]) = map id_batch bs" if "id_batch new = id_batch (bs ! k)" for new
        using that kl by (simp add: map_update list_update_same_conv)
      show ?thesis
      proof (cases gen)
        case None
        from Cons.prems False Some None
        have "releaseLoop gen u rest (bs[k := drained], r - can, aff @ [(id_batch x, can)]) = Some (bs', r', aff')"
          by (simp add: Let_def can_def drained_def)
        from Cons.IH [OF this] show ?thesis by (simp add: upd drained_def)
      next
        case g: (Some g)
        with Cons.prems False Some obtain t where t: "g drained can u = Some t"
          by (auto simp: Let_def can_def drained_def split: option.splits)
        define noted where "noted = drained\<lparr>notes_batch := Some (appendNote (notes_batch drained) t)\<rparr>"
        from Cons.prems False Some g t
        have "releaseLoop gen u rest (bs[k := noted], r - can, aff @ [(id_batch x, can)]) = Some (bs', r', aff')"
          by (simp add: Let_def can_def drained_def noted_def)
        from Cons.IH [OF this] show ?thesis by (simp add: upd noted_def drained_def)
      qed
    qed
  qed
qed

lemma releaseLoop_order:
  "releaseLoop gen u rest (bs, r, aff) = Some (bs', r', aff')
    \<Longrightarrow> set (map id_batch rest) \<subseteq> set (map id_batch bs)
    \<Longrightarrow> \<exists>n. map fst aff' = map fst aff @ take n (map id_batch rest)"
proof (induction rest arbitrary: bs r aff)
  case Nil
  then show ?case by simp
next
  case (Cons x rest)
  show ?case
  proof (cases "r \<le> 0")
    case True
    with Cons.prems have "map fst aff' = map fst aff @ take 0 (map id_batch (x # rest))" by simp
    then show ?thesis by blast
  next
    case False
    from Cons.prems(2) obtain k where k: "findIndex (\<lambda>b. id_batch b = id_batch x) bs = Some k"
      by (cases "findIndex (\<lambda>b. id_batch b = id_batch x) bs") (auto simp: findIndex_None_iff)
    then have kl: "k < length bs" by (simp add: findIndex_Some_iff)
    define can where "can = min (quantity (bs ! k)) r"
    define drained where "drained = (bs ! k)\<lparr>quantity := quantity (bs ! k) - can\<rparr>"
    have upd: "map id_batch (bs[k := new]) = map id_batch bs" if "id_batch new = id_batch (bs ! k)" for new
      using that kl by (simp add: map_update list_update_same_conv)
    obtain new where new: "id_batch new = id_batch (bs ! k)"
      and loop: "releaseLoop gen u rest (bs[k := new], r - can, aff @ [(id_batch x, can)]) = Some (bs', r', aff')"
    proof (cases gen)
      case None
      from Cons.prems(1) False k None
      have "releaseLoop gen u rest (bs[k := drained], r - can, aff @ [(id_batch x, can)]) = Some (bs', r', aff')"
        by (simp add: Let_def can_def drained_def)
      moreover have "id_batch drained = id_batch (bs ! k)" by (simp add: drained_def)
      ultimately show ?thesis using that by blast
    next
      case g: (Some g)
      with Cons.prems(1) False k obtain t where t: "g drained can u = Some t"
        by (auto simp: Let_def can_def drained_def split: option.splits)
      define noted where "noted = drained\<lparr>notes_batch := Some (appendNote (notes_batch drained) t)\<rparr>"
      from Cons.prems(1) False k g t
      have "releaseLoop gen u rest (bs[k := noted], r - can, aff @ [(id_batch x, can)]) = Some (bs', r', aff')"
        by (simp add: Let_def can_def drained_def noted_def)
      moreover have "id_batch noted = id_batch (bs ! k)" by (simp add: drained_def noted_def)
      ultimately show ?thesis using that by blast
    qed
    have "set (map id_batch rest) \<subseteq> set (map id_batch (bs[k := new]))"
      using Cons.prems(2) by (simp add: upd [OF new])
    from Cons.IH [OF loop this] obtain n where
      "map fst aff' = map fst (aff @ [(id_batch x, can)]) @ take n (map id_batch rest)" by blast
    then have "map fst aff' = map fst aff @ take (Suc n) (map id_batch (x # rest))" by simp
    then show ?thesis by blast
  qed
qed

lemma modify_order:
  assumes found: "findIndex (\<lambda>item. id_item item = i) items = Some k"
    and res: "modifyItemBatchesForRelease today i q gen strategy items
                = (items', Resolved (updatedItem, affected))"
  shows "map fst affected
         = take (length affected) (map id_batch (sortedBatches strategy (batches (items ! k))))"
proof -
  define sorted where "sorted = sortedBatches strategy (batches (items ! k))"
  from res obtain bs r where
    loop: "releaseLoop gen (unit (items ! k)) sorted (batches (items ! k), q, []) = Some (bs, r, affected)"
    unfolding modify_unfold [OF found] sorted_def by (auto split: if_splits option.splits)
  have "set (map id_batch sorted) \<subseteq> set (map id_batch (batches (items ! k)))"
    by (auto simp: sorted_def set_sortedBatches)
  from releaseLoop_order [OF loop this] obtain n where n: "map fst affected = take n (map id_batch sorted)"
    by auto
  then have "length affected = min (length sorted) n" by (metis length_map length_take)
  then have "take (length affected) (map id_batch sorted) = take n (map id_batch sorted)"
    by (simp add: min_def)
  with n show ?thesis unfolding sorted_def by simp
qed

lemma modify_resolved_sum:
  assumes found: "findIndex (\<lambda>item. id_item item = i) items = Some k"
    and dist: "distinct (map id_batch (batches (items ! k)))"
    and q: "0 \<le> q"
    and res: "modifyItemBatchesForRelease today i q gen strategy items
                = (items', Resolved (updatedItem, affected))"
  shows "sum_list (map snd affected) = q
       \<and> map id_batch (batches updatedItem) = map id_batch (batches (items ! k))"
proof -
  define item where "item = items ! k"
  define sorted where "sorted = sortedBatches strategy (batches item)"
  from res obtain bs r where
    loop: "releaseLoop gen (unit item) sorted (batches item, q, []) = Some (bs, r, affected)"
    and upd: "updatedItem = item\<lparr>batches := bs, lastUpdated := today\<rparr>"
    and le: "q \<le> available item"
    unfolding modify_unfold [OF found] item_def sorted_def by (auto split: if_splits option.splits)
  have plan: "affected = planDrain sorted q"
    using releaseLoop_plan [OF loop] dist
    by (simp add: sorted_def item_def distinct_sortedBatches aligned_sortedBatches)
  have pos: "\<forall>b\<in>set sorted. 0 \<le> quantity b"
    by (auto simp: sorted_def set_sortedBatches)
  have "sum_list (map quantity sorted) = available item"
    using totalAvailable_eq [of strategy item] by (simp add: sorted_def foldl_quantity)
  with q le have "sum_list (map snd affected) = q"
    unfolding plan by (intro sum_planDrain pos) simp_all
  moreover have "map id_batch (batches updatedItem) = map id_batch (batches item)"
    using releaseLoop_ids [OF loop] by (simp add: upd)
  ultimately show ?thesis by (simp add: item_def)
qed

lemma release_keeps_nonnegative:
  assumes found: "findIndex (\<lambda>item. id_item item = i) items = Some k"
    and dist: "distinct (map id_batch (batches (items ! k)))"
    and nonneg: "\<forall>b\<in>set (batches (items ! k)). 0 \<le> quantity b"
    and res: "modifyItemBatchesForRelease today i q gen strategy items
                = (items', Resolved (updatedItem, affected))"
  shows "\<forall>b\<in>set (batches updatedItem). 0 \<le> quantity b"
proof -
  define item where "item = items ! k"
  define sorted where "sorted = sortedBatches strategy (batches item)"
  from res obtain bs r where
    loop: "releaseLoop gen (unit item) sorted (batches item, q, []) = Some (bs, r, affected)"
    and upd: "updatedItem = item\<lparr>batches := bs, lastUpdated := today\<rparr>"
    unfolding modify_unfold [OF found] item_def sorted_def by (auto split: if_splits option.splits)
  have eff: "length bs = length (batches item)
      \<and> (\<forall>j<length (batches item). bs ! j = batches item ! j
            \<or> (\<exists>n. (id_batch (batches item ! j), n) \<in> set (planDrain sorted q) \<and> n \<le> quantity (batches item ! j)
                  \<and> drainedTo gen (unit item) (batches item ! j) n (bs ! j)))"
    using dist by (intro releaseLoop_effect [OF loop])
      (simp_all add: sorted_def item_def distinct_sortedBatches aligned_sortedBatches)
  have "0 \<le> quantity (bs ! j)" if j: "j < length bs" for j
  proof -
    from j eff have jl: "j < length (batches item)" by simp
    then have old: "0 \<le> quantity (batches item ! j)" using nonneg by (simp add: item_def)
    from eff jl consider "bs ! j = batches item ! j"
      | n where "n \<le> quantity (batches item ! j)" "drainedTo gen (unit item) (batches item ! j) n (bs ! j)"
      by blast
    then show ?thesis
    proof cases
      case 1
      with old show ?thesis by simp
    next
      case 2
      then show ?thesis by (cases gen) (auto simp: drainedTo_def)
    qed
  qed
  then show ?thesis unfolding upd by (auto simp: in_set_conv_nth)
qed

lemma allocOf_Cons: "allocOf ((b, n) # aff) bid = (if b = bid then n else 0) + allocOf aff bid"
  by (simp add: allocOf_def)

lemma allocOf_notin: "bid \<notin> fst ` set aff \<Longrightarrow> allocOf aff bid = 0"
  by (induction aff) (auto simp: allocOf_def)

lemma releaseLoop_quantities:
  "releaseLoop gen u rest (bs, r, aff) = Some (bs', r', aff') \<Longrightarrow> distinct (map id_batch rest)
    \<Longrightarrow> distinct (map id_batch bs) \<Longrightarrow> aligned rest bs
    \<Longrightarrow> (\<forall>j<length bs. quantity (bs' ! j)
              = quantity (bs ! j) - allocOf (planDrain rest r) (id_batch (bs ! j)))
      \<and> sum_list (map quantity bs') = sum_list (map quantity bs) - sum_list (map snd (planDrain rest r))"
proof (induction rest arbitrary: bs r aff)
  case Nil
  then show ?case by (simp add: allocOf_def)
next
  case (Cons x rest)
  show ?case
  proof (cases "r \<le> 0")
    case True
    with Cons.prems show ?thesis by (simp add: allocOf_def)
  next
    case False
    from Cons.prems(4) obtain k where k: "findIndex (\<lambda>b. id_batch b = id_batch x) bs = Some k"
      and q: "quantity (bs ! k) = quantity x" by (auto simp: aligned_def)
    from k have kl: "k < length bs" and kid: "id_batch (bs ! k) = id_batch x"
      by (auto simp: findIndex_Some_iff)
    define can where "can = min (quantity x) r"
    define drained where "drained = (bs ! k)\<lparr>quantity := quantity (bs ! k) - can\<rparr>"
    have d: "distinct (map id_batch rest)" using Cons.prems(2) by simp
    have plan: "planDrain (x # rest) r = (id_batch x, can) # planDrain rest (r - can)"
      using False by (simp add: can_def)
    obtain new where new: "quantity new = quantity (bs ! k) - can" "id_batch new = id_batch (bs ! k)"
      and loop: "releaseLoop gen u rest (bs[k := new], r - can, aff @ [(id_batch x, can)]) = Some (bs', r', aff')"
    proof (cases gen)
      case None
      from Cons.prems(1) False k q None
      have "releaseLoop gen u rest (bs[k := drained], r - can, aff @ [(id_batch x, can)]) = Some (bs', r', aff')"
        by (simp add: Let_def can_def drained_def)
      moreover have "quantity drained = quantity (bs ! k) - can" "id_batch drained = id_batch (bs ! k)"
        by (simp_all add: drained_def)
      ultimately show ?thesis using that by blast
    next
      case (Some g)
      with Cons.prems(1) False k q obtain t where t: "g drained can u = Some t"
        by (auto simp: Let_def can_def drained_def split: option.splits)
      define noted where "noted = drained\<lparr>notes_batch := Some (appendNote (notes_batch drained) t)\<rparr>"
      from Cons.prems(1) False k q Some t
      have "releaseLoop gen u rest (bs[k := noted], r - can, aff @ [(id_batch x, can)]) = Some (bs', r', aff')"
        by (simp add: Let_def can_def drained_def noted_def)
      moreover have "quantity noted = quantity (bs ! k) - can" "id_batch noted = id_batch (bs ! k)"
        by (simp_all add: drained_def noted_def)
      ultimately show ?thesis using that by blast
    qed
    have al: "aligned rest (bs[k := new])"
      using Cons.prems(4,2) k new(2) by (rule aligned_step)
    have ids: "map id_batch (bs[k := new]) = map id_batch bs"
      using new(2) kl by (simp add: map_update list_update_same_conv)
    have dbs: "distinct (map id_batch (bs[k := new]))" using Cons.prems(3) by (simp only: ids)
    from Cons.IH [OF loop d dbs al]
    have ih: "\<And>j. j < length bs \<Longrightarrow> quantity (bs' ! j)
              = quantity (bs[k := new] ! j) - allocOf (planDrain rest (r - can)) (id_batch (bs[k := new] ! j))"
      and ihs: "sum_list (map quantity bs')
          = sum_list (map quantity (bs[k := new])) - sum_list (map snd (planDrain rest (r - can)))"
      by auto
    have notin: "id_batch x \<notin> fst ` set (planDrain rest (r - can))"
    proof
      assume "id_batch x \<in> fst ` set (planDrain rest (r - can))"
      then obtain n where "(id_batch x, n) \<in> set (planDrain rest (r - can))" by force
      from planDrain_bounded [OF this] obtain b where "b \<in> set rest" "id_batch b = id_batch x" by auto
      with Cons.prems(2) show False by (metis distinct.simps(2) image_eqI list.simps(9) set_map)
    qed
    have "quantity (bs' ! j) = quantity (bs ! j) - allocOf (planDrain (x # rest) r) (id_batch (bs ! j))"
      if j: "j < length bs" for j
    proof (cases "j = k")
      case True
      from ih [OF j] True kl have "quantity (bs' ! k) = quantity new - allocOf (planDrain rest (r - can)) (id_batch new)"
        by simp
      also have "allocOf (planDrain rest (r - can)) (id_batch new) = 0"
        using notin new(2) kid by (simp add: allocOf_notin)
      finally show ?thesis using True new(1) kid notin by (simp add: plan allocOf_Cons allocOf_notin del: planDrain.simps)
    next
      case False
      have "id_batch (bs ! j) \<noteq> id_batch (bs ! k)"
      proof
        assume "id_batch (bs ! j) = id_batch (bs ! k)"
        then have "map id_batch bs ! j = map id_batch bs ! k" using j kl by simp
        moreover have "j < length (map id_batch bs)" "k < length (map id_batch bs)" using j kl by simp_all
        ultimately have "j = k" using Cons.prems(3) by (simp only: nth_eq_iff_index_eq)
        with False show False by simp
      qed
      with kid have "id_batch x \<noteq> id_batch (bs ! j)" by auto
      with ih [OF j] False show ?thesis by (simp add: plan allocOf_Cons del: planDrain.simps)
    qed
    moreover have "sum_list (map quantity bs')
        = sum_list (map quantity bs) - sum_list (map snd (planDrain (x # rest) r))"
      using ihs new(1) by (simp add: plan sum_list_map_update [OF kl] del: planDrain.simps)
    ultimately show ?thesis by blast
  qed
qed

lemma drainedTo_fields:
  assumes "drainedTo gen u old n new"
  shows "id_batch new = id_batch old \<and> expiryDate new = expiryDate old
       \<and> supplier new = supplier old \<and> dateAdded new = dateAdded old"
  using assms by (cases gen) (auto simp: drainedTo_def)

lemma modify_resolved_effect:
  assumes found: "findIndex (\<lambda>item. id_item item = i) items = Some k"
    and dist: "distinct (map id_batch (batches (items ! k)))"
    and q: "0 \<le> q"
    and res: "modifyItemBatchesForRelease today i q gen strategy items
                = (items', Resolved (updatedItem, affected))"
  shows "items' = items[k := updatedItem]"
    and "affected = planDrain (sortedBatches strategy (batches (items ! k))) q"
    and "sum_list (map snd affected) = q"
    and "drainedItem (items ! k) affected today updatedItem"
    and "getTotalQuantity updatedItem = getTotalQuantity (items ! k) - q"
proof -
  define item where "item = items ! k"
  define sorted where "sorted = sortedBatches strategy (batches item)"
  from res obtain bs r where
    loop: "releaseLoop gen (unit item) sorted (batches item, q, []) = Some (bs, r, affected)"
    and upd: "updatedItem = item\<lparr>batches := bs, lastUpdated := today\<rparr>"
    and it: "items' = items[k := updatedItem]"
    and le: "q \<le> available item"
    unfolding modify_unfold [OF found] item_def sorted_def by (auto split: if_splits option.splits)
  have ds: "distinct (map id_batch sorted)" "aligned sorted (batches item)"
    using dist by (simp_all add: sorted_def item_def distinct_sortedBatches aligned_sortedBatches)
  have plan: "affected = planDrain sorted q"
    using releaseLoop_plan [OF loop ds] by simp
  have pos: "\<forall>b\<in>set sorted. 0 \<le> quantity b"
    by (auto simp: sorted_def set_sortedBatches)
  have "sum_list (map quantity sorted) = available item"
    using totalAvailable_eq [of strategy item] by (simp add: sorted_def foldl_quantity)
  with q le have sum: "sum_list (map snd affected) = q"
    unfolding plan by (intro sum_planDrain pos) simp_all
  from releaseLoop_effect [OF loop ds]
  have len: "length bs = length (batches item)"
    and eff: "\<And>j. j < length (batches item) \<Longrightarrow> bs ! j = batches item ! j
            \<or> (\<exists>n. drainedTo gen (unit item) (batches item ! j) n (bs ! j))"
    by blast+
  from releaseLoop_quantities [OF loop ds(1) _ ds(2)] dist
  have qty: "\<And>j. j < length (batches item) \<Longrightarrow> quantity (bs ! j)
              = quantity (batches item ! j) - allocOf affected (id_batch (batches item ! j))"
    and tot: "sum_list (map quantity bs) = sum_list (map quantity (batches item)) - sum_list (map snd affected)"
    unfolding plan by (simp_all add: item_def)
  have fields: "id_batch (bs ! j) = id_batch (batches item ! j) \<and> expiryDate (bs ! j) = expiryDate (batches item ! j)
       \<and> supplier (bs ! j) = supplier (batches item ! j) \<and> dateAdded (bs ! j) = dateAdded (batches item ! j)"
    if j: "j < length (batches item)" for j
    using eff [OF j] drainedTo_fields by fastforce
  have "list_all2 (\<lambda>b b'. quantity b' = quantity b - allocOf affected (id_batch b)
                         \<and> id_batch b' = id_batch b \<and> expiryDate b' = expiryDate b
                         \<and> supplier b' = supplier b \<and> dateAdded b' = dateAdded b)
           (batches item) bs"
    unfolding list_all2_conv_all_nth using len qty fields by simp
  then show "drainedItem (items ! k) affected today updatedItem"
    by (simp add: drainedItem_def upd item_def)
  show "items' = items[k := updatedItem]" by (rule it)
  show "affected = planDrain (sortedBatches strategy (batches (items ! k))) q"
    using plan by (simp add: sorted_def item_def)
  show "sum_list (map snd affected) = q" by (rule sum)
  show "getTotalQuantity updatedItem = getTotalQuantity (items ! k) - q"
    using tot sum by (simp add: getTotalQuantity_def foldl_quantity upd item_def)
qed

text \<open>
  Claim C2.  A depletion that succeeds (the requested quantity is not negative and at most
  the stock of the batches with a positive quantity; batch ids are unique within the item,
  and the note formatter returns) resolves, and its allocations are the ones of the plan:
  \<open>min(batch.quantity, remaining)\<close> from the sorted batches in order until nothing remains.
  They sum to the requested quantity and none exceeds the quantity its batch had before
  the operation.  The allocations are drained from the stock: the collection written back
  is the earlier one with the item replaced by the updated item, every batch of the updated
  item has its earlier quantity less what the allocations take from it, and the item's
  total quantity has fallen by the requested quantity.
\<close>

theorem depletion_allocations:
  assumes found: "findIndex (\<lambda>item. id_item item = i) items = Some k"
    and dist: "distinct (map id_batch (batches (items ! k)))"
    and q: "0 \<le> q" "q \<le> available (items ! k)"
    and gen: "neverThrows gen"
  shows "\<exists>items' updatedItem affected.
      modifyItemBatchesForRelease today i q gen strategy items = (items', Resolved (updatedItem, affected))
    \<and> affected = planDrain (sortedBatches strategy (batches (items ! k))) q
    \<and> sum_list (map snd affected) = q
    \<and> (\<forall>(bid, n) \<in> set affected. \<exists>b\<in>set (batches (items ! k)). id_batch b = bid \<and> n \<le> quantity b)
    \<and> items' = items[k := updatedItem]
    \<and> drainedItem (items ! k) affected today updatedItem
    \<and> getTotalQuantity updatedItem = getTotalQuantity (items ! k) - q"
proof -
  from modify_resolves [OF found q(2) gen] obtain items' updatedItem affected where
    res: "modifyItemBatchesForRelease today i q gen strategy items = (items', Resolved (updatedItem, affected))"
    by blast
  note e = modify_resolved_effect [OF found dist q(1) res]
  have bound: "\<forall>(bid, n) \<in> set affected. \<exists>b\<in>set (batches (items ! k)). id_batch b = bid \<and> n \<le> quantity b"
  proof (clarify)
    fix bid n assume "(bid, n) \<in> set affected"
    from planDrain_bounded [OF this [unfolded e(2)]] obtain b where
      "b \<in> set (sortedBatches strategy (batches (items ! k)))" "id_batch b = bid" "n \<le> quantity b" by blast
    then show "\<exists>b\<in>set (batches (items ! k)). id_batch b = bid \<and> n \<le> quantity b"
      by (auto simp: set_sortedBatches)
  qed
  from res e bound show ?thesis by blast
qed

theorem depletion_allocations_witness:
  "findIndex (\<lambda>item. id_item item = ''A'') [gauze] = Some 0
   \<and> distinct (map id_batch (batches ([gauze] ! 0)))
   \<and> (0::int) \<le> 15 \<and> 15 \<le> available ([gauze] ! 0) \<and> neverThrows None
   \<and> modifyItemBatchesForRelease ''2025-02-01'' ''A'' 15 None FEFO [gauze]
       = ([gauze\<lparr>batches := [undatedBatch\<lparr>quantity := 5\<rparr>, datedBatch\<lparr>quantity := 0\<rparr>],
                 lastUpdated := ''2025-02-01''\<rparr>],
          Resolved (gauze\<lparr>batches := [undatedBatch\<lparr>quantity := 5\<rparr>, datedBatch\<lparr>quantity := 0\<rparr>],
                          lastUpdated := ''2025-02-01''\<rparr>,
                    [(''b2'', 10), (''b1'', 5)]))
   \<and> (\<exists>items' updatedItem affected.
        modifyItemBatchesForRelease ''2025-02-01'' ''A'' 15 None FEFO [gauze]
          = (items', Resolved (updatedItem, affected))
      \<and> affected = planDrain (sortedBatches FEFO (batches ([gauze] ! 0))) 15
      \<and> sum_list (map snd affected) = 15
      \<and> items' = [gauze][0 := updatedItem]
      \<and> drainedItem ([gauze] ! 0) affected ''2025-02-01'' updatedItem
      \<and> getTotalQuantity updatedItem = getTotalQuantity ([gauze] ! 0) - 15)"
proof -
  have h1: "findIndex (\<lambda>item. id_item item = ''A'') [gauze] = Some 0"
    by (simp add: gauze_def)
  have h2: "distinct (map id_batch (batches ([gauze] ! 0)))"
    by (simp add: gauze_def undatedBatch_def datedBatch_def)
  have h3: "(0::int) \<le> 15" by simp
  have h4: "15 \<le> available ([gauze] ! 0)"
    by (simp add: available_def gauze_def undatedBatch_def datedBatch_def)
  have h5: "neverThrows None" by (simp add: neverThrows_def)
  from depletion_allocations [OF h1 h2 h3 h4 h5, of "''2025-02-01''" FEFO] h1 h2 h3 h4 h5
    example_release [of "''2025-02-01''"]
  show ?thesis by blast
qed

text \<open>
  Claim C1.  For an item with well-formed dates, the FEFO candidates
  are the batches with a positive quantity, ordered by \<open>fefoBefore\<close>: expiry ascending,
  undated batches after all dated ones, ties by \<open>dateAdded\<close> ascending.  The allocations of
  a release follow that order from its start.  Over the undated batch of 10 and the batch
  of 10 expiring 2025-03-01, a request of 15 takes 10 from the dated batch and then 5 from
  the undated one.
\<close>

theorem fefo_depletion_order:
  assumes found: "findIndex (\<lambda>item. id_item item = i) items = Some k"
    and valid: "\<forall>b\<in>set (batches (items ! k)). validBatchDates b"
    and res: "modifyItemBatchesForRelease today i q gen FEFO items
                = (items', Resolved (updatedItem, affected))"
  shows "mset (sortedBatches FEFO (batches (items ! k)))
           = mset (filter (\<lambda>b. quantity b > 0) (batches (items ! k)))
    \<and> sorted_wrt fefoBefore (sortedBatches FEFO (batches (items ! k)))
    \<and> (\<forall>m n. m < n \<and> n < length (sortedBatches FEFO (batches (items ! k)))
          \<and> truthy (expiryDate (sortedBatches FEFO (batches (items ! k)) ! n))
          \<longrightarrow> truthy (expiryDate (sortedBatches FEFO (batches (items ! k)) ! m)))
    \<and> map fst affected
         = take (length affected) (map id_batch (sortedBatches FEFO (batches (items ! k))))
    \<and> snd (modifyItemBatchesForRelease today ''A'' 15 None FEFO [gauze])
         = Resolved (gauze\<lparr>batches := [undatedBatch\<lparr>quantity := 5\<rparr>, datedBatch\<lparr>quantity := 0\<rparr>],
                           lastUpdated := today\<rparr>,
                     [(''b2'', 10), (''b1'', 5)])"
proof -
  define sorted where "sorted = sortedBatches FEFO (batches (items ! k))"
  have m: "mset sorted = mset (filter (\<lambda>b. quantity b > 0) (batches (items ! k)))"
    by (simp add: sorted_def mset_sortedBatches)
  have "set (filter (\<lambda>b. quantity b > 0) (batches (items ! k))) \<subseteq> {b. validBatchDates b}"
    using valid by auto
  then have "sorted_wrt fefoBefore (arraySort compareFEFO (filter (\<lambda>b. quantity b > 0) (batches (items ! k))))"
    by (intro sorted_wrt_arraySort [where A = "{b. validBatchDates b}"])
      (auto simp: compareFEFO_fefoBefore fefoBefore_total intro: fefoBefore_trans)
  then have s: "sorted_wrt fefoBefore sorted" by (simp add: sorted_def sortedBatches_def)
  have u: "truthy (expiryDate (sorted ! m))"
    if "m < n" "n < length sorted" "truthy (expiryDate (sorted ! n))" for m n
  proof -
    from s that(1,2) have "fefoBefore (sorted ! m) (sorted ! n)" by (simp add: sorted_wrt_iff_nth_less)
    with that(3) show ?thesis by (auto simp: fefoBefore_def split: if_splits)
  qed
  have p: "map fst affected = take (length affected) (map id_batch sorted)"
    unfolding sorted_def using found res by (rule modify_order)
  have u': "\<forall>m n. m < n \<and> n < length sorted \<and> truthy (expiryDate (sorted ! n))
      \<longrightarrow> truthy (expiryDate (sorted ! m))" using u by blast
  have e: "snd (modifyItemBatchesForRelease today ''A'' 15 None FEFO [gauze])
         = Resolved (gauze\<lparr>batches := [undatedBatch\<lparr>quantity := 5\<rparr>, datedBatch\<lparr>quantity := 0\<rparr>],
                           lastUpdated := today\<rparr>,
                     [(''b2'', 10), (''b1'', 5)])" by (simp add: example_release)
  from m s u' p e show ?thesis unfolding sorted_def by blast
qed

theorem fefo_depletion_order_witness:
  "findIndex (\<lambda>item. id_item item = ''A'') [gauze] = Some 0
   \<and> list_all validBatchDates (batches ([gauze] ! 0))
   \<and> snd (modifyItemBatchesForRelease ''2025-02-01'' ''A'' 15 None FEFO [gauze])
       = Resolved (gauze\<lparr>batches := [undatedBatch\<lparr>quantity := 5\<rparr>, datedBatch\<lparr>quantity := 0\<rparr>],
                         lastUpdated := ''2025-02-01''\<rparr>,
                   [(''b2'', 10), (''b1'', 5)])
   \<and> sortedBatches FEFO (batches ([gauze] ! 0)) = [datedBatch, undatedBatch]
   \<and> sorted_wrt fefoBefore (sortedBatches FEFO (batches ([gauze] ! 0)))
   \<and> map fst [(''b2'', 10 :: int), (''b1'', 5)]
       = take (length [(''b2'', 10 :: int), (''b1'', 5)]) (map id_batch (sortedBatches FEFO (batches ([gauze] ! 0))))"
proof -
  have h1: "findIndex (\<lambda>item. id_item item = ''A'') [gauze] = Some 0"
    by (simp add: gauze_def)
  have v1: "validBatchDates undatedBatch"
    by (simp add: validBatchDates_def undatedBatch_def truthy_def date_eval)
  have v2: "validBatchDates datedBatch"
    by (simp add: validBatchDates_def datedBatch_def truthy_def strOf_def date_eval)
  have h3: "\<forall>b\<in>set (batches ([gauze] ! 0)). validBatchDates b"
    using v1 v2 by (simp add: gauze_def)
  have h4: "modifyItemBatchesForRelease ''2025-02-01'' ''A'' 15 None FEFO [gauze]
     = ([gauze\<lparr>batches := [undatedBatch\<lparr>quantity := 5\<rparr>, datedBatch\<lparr>quantity := 0\<rparr>], lastUpdated := ''2025-02-01''\<rparr>],
        Resolved (gauze\<lparr>batches := [undatedBatch\<lparr>quantity := 5\<rparr>, datedBatch\<lparr>quantity := 0\<rparr>],
                        lastUpdated := ''2025-02-01''\<rparr>,
                  [(''b2'', 10), (''b1'', 5)]))"
    by (rule example_release)
  have h5: "sortedBatches FEFO (batches ([gauze] ! 0)) = [datedBatch, undatedBatch]"
    by (simp add: gauze_def undatedBatch_def datedBatch_def
      sortedBatches_def arraySort_def compareFEFO_def sortCompare_def truthy_def)
  from fefo_depletion_order [OF h1 h3 h4] h1 h3 h4 h5
  show ?thesis by (simp add: list_all_iff)
qed


lemma example_release_notes:
  "snd (modifyItemBatchesForRelease ''2025-02-01'' ''A'' 15
        (Some (releaseOpNotes ''2025-02-01'' ''VOUCHER-1'' ward3)) FEFO [gauze])
   = Resolved (gauze\<lparr>batches :=
       [undatedBatch\<lparr>quantity := 5, notes_batch := Some (''[Bulk Stock Release - 2025-02-01 | Voucher: VOUCHER-1]: Released 5 packs to '' @ [CHR 0x22] @ ''Ward 3'' @ [CHR 0x22] @ '' from batch ID b1. Reason: Surgery.'')\<rparr>,
        datedBatch\<lparr>quantity := 0, notes_batch := Some (''[Stock Addition - 2025-01-20]: Added 10 packs.'' @ [CHR 0x0A] @ ''[Bulk Stock Release - 2025-02-01 | Voucher: VOUCHER-1]: Released 10 packs to '' @ [CHR 0x22] @ ''Ward 3'' @ [CHR 0x22] @ '' from batch ID b2. Reason: Surgery.'')\<rparr>],
       lastUpdated := ''2025-02-01''\<rparr>, [(''b2'', 10), (''b1'', 5)])"
  by (simp add: modifyItemBatchesForRelease_def gauze_def undatedBatch_def datedBatch_def
      sortedBatches_def arraySort_def compareFEFO_def sortCompare_def truthy_def Let_def
      releaseOpNotes_def releaseDateStr_def ward3_def appendNote_def strOf_def showInt_def)

lemma timeDiff_le:
  assumes "validDate a" "validDate b"
  shows "(sortCompare timeDiff a b \<le> 0) = (a \<le> b)"
  using date_le_iff [OF assms] by (simp add: sortCompare_def timeDiff_valid [OF assms])

lemma sorted_arraySort_timeDiff:
  assumes "\<forall>s\<in>set xs. validDate s"
  shows "sorted_wrt (\<le>) (arraySort timeDiff xs)"
proof -
  have "set xs \<subseteq> {s. validDate s}" using assms by auto
  then show ?thesis
    by (intro sorted_wrt_arraySort [where A = "{s. validDate s}"]) (auto simp: timeDiff_le)
qed

lemma head_sorted_Min:
  fixes xs :: "'a::linorder list"
  assumes "sorted_wrt (\<le>) (x # xs)"
  shows "x = Min (set (x # xs))"
proof -
  from assms have "\<forall>y\<in>set (x # xs). x \<le> y" by auto
  then show ?thesis by (intro Min_eqI [symmetric]) auto
qed

text \<open>
  Claim C6.  With well-formed expiry dates, \<open>getSoonestExpiryDate\<close> is the minimum of the
  expiry dates of the batches with a positive quantity whose date is present and not
  strictly before today (a batch expiring today counts), and nothing when there is none.
  Dropping the batches of quantity 0 and the batches expired before today does not change
  the result.
\<close>

theorem soonest_expiry_minimum:
  assumes valid: "\<forall>b\<in>set (batches item). truthy (expiryDate b) \<longrightarrow> validDate (strOf (expiryDate b))"
  shows "getSoonestExpiryDate today item
           = (if eligibleExpiries today item = {} then None else Some (Min (eligibleExpiries today item)))
       \<and> getSoonestExpiryDate today (withoutSpentOrExpired today item) = getSoonestExpiryDate today item"
proof -
  define P where "P = (\<lambda>b::Batch. quantity b > 0 \<and> truthy (expiryDate b) \<and> strOf (expiryDate b) \<ge> today)"
  define dates where "dates = map (\<lambda>b. strOf (expiryDate b)) (filter P (batches item))"
  have PI: "P b \<longleftrightarrow> quantity b > 0 \<and> (\<exists>e. expiryDate b = Some e \<and> e \<noteq> [] \<and> \<not> e < today)" for b
    by (cases "expiryDate b") (auto simp: P_def truthy_def strOf_def not_less)
  have E: "eligibleExpiries today item = set dates"
  proof (intro set_eqI iffI)
    fix e assume "e \<in> eligibleExpiries today item"
    then obtain b where b: "b \<in> set (batches item)" "quantity b > 0" "expiryDate b = Some e"
      "e \<noteq> []" "\<not> e < today" by (auto simp: eligibleExpiries_def)
    then have "P b" "strOf (expiryDate b) = e" by (auto simp: PI strOf_def)
    with b(1) show "e \<in> set dates" by (force simp: dates_def)
  next
    fix e assume "e \<in> set dates"
    then obtain b where b: "b \<in> set (batches item)" "P b" "e = strOf (expiryDate b)"
      by (auto simp: dates_def)
    from b(2) obtain e' where "quantity b > 0" "expiryDate b = Some e'" "e' \<noteq> []" "\<not> e' < today"
      by (auto simp: PI)
    with b show "e \<in> eligibleExpiries today item" by (auto simp: eligibleExpiries_def strOf_def)
  qed
  have "\<forall>s\<in>set dates. validDate s" using valid by (auto simp: dates_def P_def)
  then have sorted: "sorted_wrt (\<le>) (arraySort timeDiff dates)" by (rule sorted_arraySort_timeDiff)
  have get: "getSoonestExpiryDate today item
      = (case arraySort timeDiff dates of [] \<Rightarrow> None | x # _ \<Rightarrow> Some x)"
    by (simp add: getSoonestExpiryDate_def dates_def P_def)
  have first: "getSoonestExpiryDate today item
           = (if eligibleExpiries today item = {} then None else Some (Min (eligibleExpiries today item)))"
  proof (cases "arraySort timeDiff dates")
    case Nil
    then have "set dates = {}" using set_arraySort [of timeDiff dates] by simp
    with Nil show ?thesis by (simp add: get E)
  next
    case (Cons x xs)
    then have s: "set dates = set (x # xs)" using set_arraySort [of timeDiff dates] by simp
    from sorted Cons have "x = Min (set (x # xs))" by (intro head_sorted_Min) simp
    with Cons s show ?thesis by (simp add: get E)
  qed
  have "filter P (filter (\<lambda>b. \<not> (quantity b = 0 \<or> (truthy (expiryDate b) \<and> strOf (expiryDate b) < today)))
          (batches item)) = filter P (batches item)"
    unfolding filter_filter by (rule filter_cong) (auto simp: P_def)
  then have "getSoonestExpiryDate today (withoutSpentOrExpired today item) = getSoonestExpiryDate today item"
    by (simp add: getSoonestExpiryDate_def withoutSpentOrExpired_def P_def)
  with first show ?thesis by blast
qed

lemma example_soonest: "getSoonestExpiryDate ''2025-02-01'' gauze = Some ''2025-03-01''"
  by (simp add: getSoonestExpiryDate_def gauze_def undatedBatch_def datedBatch_def truthy_def strOf_def
      arraySort_def)

lemma example_soonest_today: "getSoonestExpiryDate ''2025-03-01'' gauze = Some ''2025-03-01''"
  by (simp add: getSoonestExpiryDate_def gauze_def undatedBatch_def datedBatch_def truthy_def strOf_def
      arraySort_def)

lemma example_soonest_expired: "getSoonestExpiryDate ''2025-03-02'' gauze = None"
  by (simp add: getSoonestExpiryDate_def gauze_def undatedBatch_def datedBatch_def truthy_def strOf_def
      arraySort_def)

theorem soonest_expiry_minimum_witness:
  "list_all (\<lambda>b. \<not> truthy (expiryDate b) \<or> validDate (strOf (expiryDate b))) (batches gauze)
   \<and> eligibleExpiries ''2025-03-01'' gauze \<noteq> {}
   \<and> getSoonestExpiryDate ''2025-03-01'' gauze = Some (Min (eligibleExpiries ''2025-03-01'' gauze))
   \<and> getSoonestExpiryDate ''2025-03-01'' gauze = Some ''2025-03-01''
   \<and> getSoonestExpiryDate ''2025-03-01'' (withoutSpentOrExpired ''2025-03-01'' gauze) = Some ''2025-03-01''"
proof -
  have h: "\<forall>b\<in>set (batches gauze). truthy (expiryDate b) \<longrightarrow> validDate (strOf (expiryDate b))"
    by (simp add: gauze_def undatedBatch_def datedBatch_def truthy_def strOf_def date_eval)
  have e: "getSoonestExpiryDate ''2025-03-01'' gauze = Some ''2025-03-01''"
    by (rule example_soonest_today)
  from soonest_expiry_minimum [OF h, of "''2025-03-01''"] e
  have "eligibleExpiries ''2025-03-01'' gauze \<noteq> {}" by (auto split: if_splits)
  with soonest_expiry_minimum [OF h, of "''2025-03-01''"] e h
  show ?thesis by (auto simp: list_all_iff)
qed

text \<open>
  Claim C4, at the input where the code departs from it.  The service adds a batch of
  quantity \<open>-5\<close> to the stored item: the call resolves and the collection it writes back
  holds a batch with a negative quantity.
\<close>

theorem addBatchToItem_negative_quantity_persisted:
  "addBatchToItem ''2025-02-01'' ''n1'' ''A'' minusFive ''packs'' [gauze]
     = ([gauze\<lparr>batches := [undatedBatch, datedBatch, negativeBatch], lastUpdated := ''2025-02-01''\<rparr>],
        Resolved (gauze\<lparr>batches := [undatedBatch, datedBatch, negativeBatch], lastUpdated := ''2025-02-01''\<rparr>))
   \<and> quantity negativeBatch < 0"
  by (simp add: addBatchToItem_def gauze_def minusFive_def negativeBatch_def systemNotePrefix_def
      truthy_def strOf_def showInt_def trim_def isSpace_def Let_def)

text \<open>
  Claim C5, at the input where the code departs from it.  The hook's single-item add-batch
  with \<open>quantityAdded = -5\<close> returns the updated item and a batch of quantity \<open>-5\<close> is
  created, in the React state and in the stored collection; no invalid-quantity error is
  raised.
\<close>

theorem addStockBatchToItem_nonpositive_accepted:
  "addStockBatchToItem ''2025-02-01'' ''n1'' ''A'' detailsMinusFive ([gauze], [gauze])
     = (([gauze\<lparr>batches := [undatedBatch, datedBatch, negativeBatch], lastUpdated := ''2025-02-01''\<rparr>],
         [gauze\<lparr>batches := [undatedBatch, datedBatch, negativeBatch], lastUpdated := ''2025-02-01''\<rparr>]),
        Returned (gauze\<lparr>batches := [undatedBatch, datedBatch, negativeBatch], lastUpdated := ''2025-02-01''\<rparr>))"
  by (simp add: addStockBatchToItem_def addBatchToItem_def gauze_def detailsMinusFive_def negativeBatch_def
      systemNotePrefix_def replaceItem_def
      truthy_def strOf_def showInt_def trim_def isSpace_def Let_def)

section \<open>Bulk release\<close>

lemma modify_ResolvedD:
  assumes "modifyItemBatchesForRelease today i q gen strategy items = (items', Resolved (u, aff))"
  shows "\<exists>k. findIndex (\<lambda>item. id_item item = i) items = Some k \<and> items' = items[k := u]
          \<and> id_item u = i \<and> q \<le> available (items ! k)"
proof (cases "findIndex (\<lambda>item. id_item item = i) items")
  case None
  with assms show ?thesis by (simp add: modifyItemBatchesForRelease_def)
next
  case (Some k)
  then have "id_item (items ! k) = i" by (simp add: findIndex_Some_iff)
  with assms Some show ?thesis
    by (auto simp: modify_unfold [OF Some] split: if_splits option.splits)
qed

lemma modify_RejectedD:
  assumes "modifyItemBatchesForRelease today i q gen strategy items = (items', Rejected e)"
  shows "items' = items"
proof (cases "findIndex (\<lambda>item. id_item item = i) items")
  case None
  with assms show ?thesis by (simp add: modifyItemBatchesForRelease_def)
next
  case (Some k)
  with assms show ?thesis
    by (auto simp: modify_unfold [OF Some] split: if_splits option.splits)
qed

lemma modify_not_Pending:
  assumes "neverThrows gen"
  shows "snd (modifyItemBatchesForRelease today i q gen strategy items) \<noteq> Pending"
proof (cases "findIndex (\<lambda>item. id_item item = i) items")
  case None
  then show ?thesis by (simp add: modifyItemBatchesForRelease_def)
next
  case (Some k)
  from releaseLoop_total [OF assms] obtain st' where
    "releaseLoop gen (unit (items ! k)) (sortedBatches strategy (batches (items ! k)))
       (batches (items ! k), q, []) = Some st'" by blast
  then show ?thesis by (auto simp: modify_unfold [OF Some] split: prod.splits)
qed

lemma bulk_step:
  assumes date: "releaseDateStr today (releaseDate common) \<noteq> None"
  shows "\<exists>items1 p e.
      bulkReleaseLoop today st common vid (entry # rest) (items, processed, errs, ok, buffer)
        = bulkReleaseLoop today st common vid rest
            (items1, processed @ p, errs @ e, ok \<and> e = [], buffer @ map fst p)
    \<and> ((p = [] \<and> items1 = items \<and> (\<exists>n m. e = [(itemId entry, n, m)]))
       \<or> (e = [] \<and> \<not> entryInvalid st entry \<and> 0 < quantityReleased entry
           \<and> (\<exists>u aff k. p = [(u, quantityReleased entry, aff)]
                 \<and> findIndex (\<lambda>item. id_item item = itemId entry) items = Some k
                 \<and> items1 = items[k := u] \<and> id_item u = itemId entry)))"
proof (cases "find (\<lambda>item. id_item item = itemId entry) st")
  case None
  show ?thesis
    by (rule exI [of _ items], rule exI [of _ "[]"],
        rule exI [of _ "[(itemId entry, ''Unknown Item'', ItemNotFound)]"]) (simp add: None)
next
  case (Some currentItem)
  show ?thesis
  proof (cases "quantityReleased entry \<le> 0")
    case True
    show ?thesis
      by (rule exI [of _ items], rule exI [of _ "[]"],
          rule exI [of _ "[(itemId entry, name currentItem, QuantityMustBePositive)]"])
        (simp add: Some True)
  next
    case pos: False
    show ?thesis
    proof (cases "quantityReleased entry > getTotalQuantity currentItem")
      case True
      show ?thesis
        by (rule exI [of _ items], rule exI [of _ "[]"],
            rule exI [of _ "[(itemId entry, name currentItem, NotEnoughStockAvailable (getTotalQuantity currentItem))]"])
          (simp add: Some pos True)
    next
      case enough: False
      have valid: "\<not> entryInvalid st entry" using Some pos enough by (simp add: entryInvalid_def)
      define r where "r = modifyItemBatchesForRelease today (itemId entry) (quantityReleased entry)
                     (Some (releaseOpNotes today vid common)) FEFO items"
      have np: "snd r \<noteq> Pending" unfolding r_def
        by (rule modify_not_Pending) (use date in \<open>auto simp: neverThrows_def releaseOpNotes_def\<close>)
      obtain items1 out where r: "r = (items1, out)" by (cases r)
      show ?thesis
      proof (cases out)
        case (Resolved ua)
        obtain u aff where ua: "ua = (u, aff)" by (cases ua)
        from modify_ResolvedD [OF r [unfolded r_def Resolved ua]]
        obtain k where k: "findIndex (\<lambda>item. id_item item = itemId entry) items = Some k"
          "items1 = items[k := u]" "id_item u = itemId entry" by blast
        show ?thesis
          by (rule exI [of _ items1], rule exI [of _ "[(u, quantityReleased entry, aff)]"], rule exI [of _ "[]"])
            (use Some pos enough valid r [unfolded r_def] Resolved ua k in simp)
      next
        case (Rejected err)
        from modify_RejectedD [OF r [unfolded r_def Rejected]] have i: "items1 = items" .
        show ?thesis
          by (rule exI [of _ items], rule exI [of _ "[]"],
              rule exI [of _ "[(itemId entry, name currentItem, ApiError err)]"])
            (use Some pos enough r [unfolded r_def] Rejected i in simp)
      next
        case Pending
        with np r show ?thesis by simp
      qed
    qed
  qed
qed

lemma bulkReleaseLoop_inv:
  assumes date: "releaseDateStr today (releaseDate common) \<noteq> None"
  shows "\<exists>items' processed' errs' ok' buffer'.
     bulkReleaseLoop today st common vid entries (items, processed, errs, ok, buffer)
       = Some (items', processed @ processed', errs @ errs', ok', buffer')
   \<and> length processed' + length errs' = length entries
   \<and> (ok' \<longleftrightarrow> ok \<and> errs' = [])
   \<and> (\<forall>entry\<in>set entries. entryInvalid st entry \<longrightarrow> itemId entry \<in> fst ` set errs')
   \<and> length items' = length items
   \<and> map id_item items' = map id_item items
   \<and> (\<forall>k<length items. id_item (items ! k) \<notin> (\<lambda>(u, q, a). id_item u) ` set processed'
          \<longrightarrow> items' ! k = items ! k)
   \<and> (\<forall>(u, q, a)\<in>set processed'. 0 < q
          \<and> (\<exists>entry\<in>set entries. itemId entry = id_item u \<and> quantityReleased entry = q))"
proof (induction entries arbitrary: items processed errs ok buffer)
  case Nil
  show ?case by simp
next
  case (Cons entry rest)
  from bulk_step [OF date, of st vid entry rest items processed errs ok buffer]
  obtain items1 p e where
    step: "bulkReleaseLoop today st common vid (entry # rest) (items, processed, errs, ok, buffer)
        = bulkReleaseLoop today st common vid rest
            (items1, processed @ p, errs @ e, ok \<and> e = [], buffer @ map fst p)"
    and alt: "(p = [] \<and> items1 = items \<and> (\<exists>n m. e = [(itemId entry, n, m)]))
       \<or> (e = [] \<and> \<not> entryInvalid st entry \<and> 0 < quantityReleased entry
           \<and> (\<exists>u aff k. p = [(u, quantityReleased entry, aff)]
                 \<and> findIndex (\<lambda>item. id_item item = itemId entry) items = Some k
                 \<and> items1 = items[k := u] \<and> id_item u = itemId entry))"
    by blast
  from Cons.IH [of items1 "processed @ p" "errs @ e" "ok \<and> e = []" "buffer @ map fst p"]
  obtain items' processed' errs' ok' buffer' where
    loop: "bulkReleaseLoop today st common vid rest
            (items1, processed @ p, errs @ e, ok \<and> e = [], buffer @ map fst p)
       = Some (items', (processed @ p) @ processed', (errs @ e) @ errs', ok', buffer')"
    and len: "length processed' + length errs' = length rest"
    and ok: "ok' \<longleftrightarrow> (ok \<and> e = []) \<and> errs' = []"
    and inv: "\<forall>entry\<in>set rest. entryInvalid st entry \<longrightarrow> itemId entry \<in> fst ` set errs'"
    and li: "length items' = length items1"
    and ids: "map id_item items' = map id_item items1"
    and same: "\<forall>k<length items1. id_item (items1 ! k) \<notin> (\<lambda>(u, q, a). id_item u) ` set processed'
          \<longrightarrow> items' ! k = items1 ! k"
    and proc: "\<forall>(u, q, a)\<in>set processed'. 0 < q
          \<and> (\<exists>entry\<in>set rest. itemId entry = id_item u \<and> quantityReleased entry = q)"
    by blast
  from alt show ?case
  proof
    assume a: "p = [] \<and> items1 = items \<and> (\<exists>n m. e = [(itemId entry, n, m)])"
    then obtain n m where e: "e = [(itemId entry, n, m)]" by blast
    have "bulkReleaseLoop today st common vid (entry # rest) (items, processed, errs, ok, buffer)
       = Some (items', processed @ processed', errs @ (e @ errs'), ok', buffer')"
      using step loop a by simp
    moreover have "length processed' + length (e @ errs') = length (entry # rest)"
      using len e by simp
    moreover have "ok' \<longleftrightarrow> ok \<and> e @ errs' = []" using ok e by simp
    moreover have "\<forall>x\<in>set (entry # rest). entryInvalid st x \<longrightarrow> itemId x \<in> fst ` set (e @ errs')"
      using inv e by auto
    moreover have "length items' = length items" "map id_item items' = map id_item items"
      using li ids a by simp_all
    moreover have "\<forall>k<length items. id_item (items ! k) \<notin> (\<lambda>(u, q, a). id_item u) ` set processed'
          \<longrightarrow> items' ! k = items ! k" using same a by simp
    moreover have "\<forall>(u, q, a)\<in>set processed'. 0 < q
          \<and> (\<exists>x\<in>set (entry # rest). itemId x = id_item u \<and> quantityReleased x = q)"
      using proc by auto
    ultimately show ?thesis by blast
  next
    assume b: "e = [] \<and> \<not> entryInvalid st entry \<and> 0 < quantityReleased entry
           \<and> (\<exists>u aff k. p = [(u, quantityReleased entry, aff)]
                 \<and> findIndex (\<lambda>item. id_item item = itemId entry) items = Some k
                 \<and> items1 = items[k := u] \<and> id_item u = itemId entry)"
    then obtain u aff k where e: "e = []" and v: "\<not> entryInvalid st entry" and pos: "0 < quantityReleased entry"
      and p: "p = [(u, quantityReleased entry, aff)]"
      and k: "findIndex (\<lambda>item. id_item item = itemId entry) items = Some k"
      and i1: "items1 = items[k := u]" and u: "id_item u = itemId entry" by blast
    from k have kl: "k < length items" and kid: "id_item (items ! k) = itemId entry"
      by (auto simp: findIndex_Some_iff)
    have "bulkReleaseLoop today st common vid (entry # rest) (items, processed, errs, ok, buffer)
       = Some (items', processed @ (p @ processed'), errs @ errs', ok', buffer')"
      using step loop e by simp
    moreover have "length (p @ processed') + length errs' = length (entry # rest)"
      using len p by simp
    moreover have "ok' \<longleftrightarrow> ok \<and> errs' = []" using ok e by simp
    moreover have "\<forall>x\<in>set (entry # rest). entryInvalid st x \<longrightarrow> itemId x \<in> fst ` set errs'"
      using inv v by auto
    moreover have "length items' = length items" using li i1 by simp
    moreover have "map id_item items' = map id_item items"
      using ids i1 u kid kl by (simp add: map_update list_update_same_conv)
    moreover have "\<forall>j<length items. id_item (items ! j) \<notin> (\<lambda>(u, q, a). id_item u) ` set (p @ processed')
          \<longrightarrow> items' ! j = items ! j"
    proof (intro allI impI)
      fix j assume j: "j < length items"
        and n: "id_item (items ! j) \<notin> (\<lambda>(u, q, a). id_item u) ` set (p @ processed')"
      from n p u have "id_item (items ! j) \<noteq> itemId entry" by auto
      with kid have jk: "j \<noteq> k" by auto
      then have eq: "items1 ! j = items ! j" using i1 by simp
      from n have "id_item (items ! j) \<notin> (\<lambda>(u, q, a). id_item u) ` set processed'"
        by (simp add: image_Un)
      then have "id_item (items1 ! j) \<notin> (\<lambda>(u, q, a). id_item u) ` set processed'"
        by (simp add: eq)
      with same j i1 have "items' ! j = items1 ! j" by simp
      with eq show "items' ! j = items ! j" by simp
    qed
    moreover have "\<forall>(u, q, a)\<in>set (p @ processed'). 0 < q
          \<and> (\<exists>x\<in>set (entry # rest). itemId x = id_item u \<and> quantityReleased x = q)"
      using proc p u pos by auto
    ultimately show ?thesis by blast
  qed
qed

lemma bulk_step_sums:
  assumes run: "bulkReleaseLoop today st common vid (entry # rest) (items, processed, errs, ok, buffer) = Some final"
    and d: "idsDistinct items" and s: "sumsOk processed"
  shows "\<exists>items1 processed1 errs1 ok1 buffer1.
      bulkReleaseLoop today st common vid rest (items1, processed1, errs1, ok1, buffer1) = Some final
    \<and> idsDistinct items1 \<and> sumsOk processed1"
proof (cases "find (\<lambda>item. id_item item = itemId entry) st")
  case None
  with run d s show ?thesis by (simp; blast)
next
  case (Some currentItem)
  show ?thesis
  proof (cases "quantityReleased entry \<le> 0")
    case True
    with run Some d s show ?thesis by (simp; blast)
  next
    case pos: False
    show ?thesis
    proof (cases "quantityReleased entry > getTotalQuantity currentItem")
      case True
      with run Some pos d s show ?thesis by (simp; blast)
    next
      case enough: False
      define r where "r = modifyItemBatchesForRelease today (itemId entry) (quantityReleased entry)
                     (Some (releaseOpNotes today vid common)) FEFO items"
      obtain items1 out where r: "r = (items1, out)" by (cases r)
      show ?thesis
      proof (cases out)
        case (Resolved ua)
        obtain u aff where ua: "ua = (u, aff)" by (cases ua)
        note res = r [unfolded r_def Resolved ua]
        from modify_ResolvedD [OF res]
        obtain k where k: "findIndex (\<lambda>item. id_item item = itemId entry) items = Some k"
          and i1: "items1 = items[k := u]" by blast
        from k have kl: "k < length items" by (simp add: findIndex_Some_iff)
        then have "items ! k \<in> set items" by simp
        with d have dk: "distinct (map id_batch (batches (items ! k)))" by (simp add: idsDistinct_def)
        from modify_resolved_sum [OF k dk _ res] pos
        have sum: "sum_list (map snd aff) = quantityReleased entry"
          and ids: "map id_batch (batches u) = map id_batch (batches (items ! k))" by simp_all
        have "set items1 \<subseteq> insert u (set items)" unfolding i1 by (rule set_update_subset_insert)
        moreover have "distinct (map id_batch (batches u))" using ids dk by simp
        ultimately have d1: "idsDistinct items1" using d by (auto simp: idsDistinct_def)
        have s1: "sumsOk (processed @ [(u, quantityReleased entry, aff)])"
          using s sum by (simp add: sumsOk_def)
        from run Some pos enough res
        have "bulkReleaseLoop today st common vid rest
                (items1, processed @ [(u, quantityReleased entry, aff)], errs, ok, buffer @ [u]) = Some final"
          by simp
        with d1 s1 show ?thesis by blast
      next
        case (Rejected err)
        from modify_RejectedD [OF r [unfolded r_def Rejected]] have "items1 = items" .
        with run Some pos enough r [unfolded r_def] Rejected d s show ?thesis by (simp; blast)
      next
        case Pending
        with run Some pos enough r [unfolded r_def] show ?thesis by simp
      qed
    qed
  qed
qed

lemma bulkReleaseLoop_sums:
  assumes "bulkReleaseLoop today st common vid entries (items, processed, errs, ok, buffer)
             = Some (items', processed', errs', ok', buffer')"
    and "idsDistinct items" and "sumsOk processed"
  shows "idsDistinct items' \<and> sumsOk processed'"
  using assms
proof (induction entries arbitrary: items processed errs ok buffer)
  case Nil
  then show ?case by simp
next
  case (Cons entry rest)
  from bulk_step_sums [OF Cons.prems] obtain items1 processed1 errs1 ok1 buffer1 where
    "bulkReleaseLoop today st common vid rest (items1, processed1, errs1, ok1, buffer1)
       = Some (items', processed', errs', ok', buffer')"
    "idsDistinct items1" "sumsOk processed1" by blast
  then show ?case by (rule Cons.IH)
qed

lemma findIndex_map_cong:
  "map f xs = map f ys \<Longrightarrow> findIndex (\<lambda>x. f x = v) xs = findIndex (\<lambda>x. f x = v) ys"
proof (induction xs arbitrary: ys)
  case Nil
  then show ?case by simp
next
  case (Cons x xs)
  then obtain y ys' where "ys = y # ys'" "f x = f y" "map f xs = map f ys'" by (cases ys) auto
  with Cons.IH [of ys'] show ?case by simp
qed

lemma modify_depends_on_item:
  assumes k: "findIndex (\<lambda>item. id_item item = i) items = Some k"
    and k1: "findIndex (\<lambda>item. id_item item = i) items1 = Some k"
    and same: "items1 ! k = items ! k"
    and res: "modifyItemBatchesForRelease today i q gen strategy items1 = (items2, Resolved (u, a))"
  shows "modifyItemBatchesForRelease today i q gen strategy items = (items[k := u], Resolved (u, a))"
  using res unfolding modify_unfold [OF k] modify_unfold [OF k1] same
  by (auto split: if_splits option.splits)

lemma bulk_step_entry:
  assumes date: "releaseDateStr today (releaseDate common) \<noteq> None"
  shows "\<exists>items1 p e.
      (\<forall>rest processed errs ok buffer.
         bulkReleaseLoop today st common vid (entry # rest) (items, processed, errs, ok, buffer)
           = bulkReleaseLoop today st common vid rest
               (items1, processed @ p, errs @ e, ok \<and> e = [], buffer @ map fst p))
    \<and> (if entryRefused st items entry
        then p = [] \<and> items1 = items \<and> (\<exists>n m. e = [(itemId entry, n, m)])
        else e = [] \<and> 0 < quantityReleased entry
           \<and> (\<exists>u aff. p = [(u, quantityReleased entry, aff)]
                 \<and> modifyItemBatchesForRelease today (itemId entry) (quantityReleased entry)
                      (Some (releaseOpNotes today vid common)) FEFO items = (items1, Resolved (u, aff))))"
proof (cases "find (\<lambda>item. id_item item = itemId entry) st")
  case None
  then have "entryRefused st items entry" by (simp add: entryRefused_def entryInvalid_def)
  then show ?thesis
    by (intro exI [of _ items] exI [of _ "[]"]
        exI [of _ "[(itemId entry, ''Unknown Item'', ItemNotFound)]"]) (simp add: None)
next
  case (Some currentItem)
  show ?thesis
  proof (cases "quantityReleased entry \<le> 0")
    case True
    then have "entryRefused st items entry" using Some by (simp add: entryRefused_def entryInvalid_def)
    then show ?thesis
      by (intro exI [of _ items] exI [of _ "[]"]
          exI [of _ "[(itemId entry, name currentItem, QuantityMustBePositive)]"])
        (simp add: Some True)
  next
    case pos: False
    show ?thesis
    proof (cases "quantityReleased entry > getTotalQuantity currentItem")
      case True
      then have "entryRefused st items entry" using Some by (simp add: entryRefused_def entryInvalid_def)
      then show ?thesis
        by (intro exI [of _ items] exI [of _ "[]"]
            exI [of _ "[(itemId entry, name currentItem, NotEnoughStockAvailable (getTotalQuantity currentItem))]"])
          (simp add: Some pos True)
    next
      case enough: False
      have valid: "\<not> entryInvalid st entry" using Some pos enough by (simp add: entryInvalid_def)
      have gen: "neverThrows (Some (releaseOpNotes today vid common))"
        using date by (rule neverThrows_releaseOpNotes)
      show ?thesis
      proof (cases "findIndex (\<lambda>item. id_item item = itemId entry) items")
        case None
        then have refused: "entryRefused st items entry" by (simp add: entryRefused_def)
        have "modifyItemBatchesForRelease today (itemId entry) (quantityReleased entry)
                (Some (releaseOpNotes today vid common)) FEFO items = (items, Rejected ItemNotFoundForRelease)"
          by (simp add: modifyItemBatchesForRelease_def None)
        with refused show ?thesis
          by (intro exI [of _ items] exI [of _ "[]"]
              exI [of _ "[(itemId entry, name currentItem, ApiError ItemNotFoundForRelease)]"])
            (simp add: Some pos enough)
      next
        case k: (Some k)
        show ?thesis
        proof (cases "available (items ! k) < quantityReleased entry")
          case True
          then have refused: "entryRefused st items entry" by (simp add: entryRefused_def k)
          have "modifyItemBatchesForRelease today (itemId entry) (quantityReleased entry)
                  (Some (releaseOpNotes today vid common)) FEFO items
                = (items, Rejected (NotEnoughStock (available (items ! k)) (quantityReleased entry)))"
            using True by (simp add: modify_unfold [OF k])
          with refused show ?thesis
            by (intro exI [of _ items] exI [of _ "[]"]
                exI [of _ "[(itemId entry, name currentItem,
                     ApiError (NotEnoughStock (available (items ! k)) (quantityReleased entry)))]"])
              (simp add: Some pos enough)
        next
          case False
          then have accepted: "\<not> entryRefused st items entry" using valid by (simp add: entryRefused_def k)
          from False have "quantityReleased entry \<le> available (items ! k)" by simp
          from modify_resolves [OF k this gen] obtain items1 u aff where
            res: "modifyItemBatchesForRelease today (itemId entry) (quantityReleased entry)
                (Some (releaseOpNotes today vid common)) FEFO items = (items1, Resolved (u, aff))"
            by blast
          from pos have pos': "0 < quantityReleased entry" by simp
          with accepted res show ?thesis
            by (intro exI [of _ items1] exI [of _ "[(u, quantityReleased entry, aff)]"] exI [of _ "[]"])
              (simp add: Some pos enough)
        qed
      qed
    qed
  qed
qed

lemma bulkReleaseLoop_accumulates:
  assumes date: "releaseDateStr today (releaseDate common) \<noteq> None"
  shows "bulkReleaseLoop today st common vid entries (items, processed, errs, ok, buffer)
     = map_option (\<lambda>(items', p, e, ok', b). (items', processed @ p, errs @ e, ok \<and> ok', buffer @ b))
         (bulkReleaseLoop today st common vid entries (items, [], [], True, []))"
proof (induction entries arbitrary: items processed errs ok buffer)
  case Nil
  show ?case by simp
next
  case (Cons entry rest)
  from bulk_step_entry [OF date, of st vid entry items] obtain items1 p e where
    step: "\<And>rest processed errs ok buffer.
         bulkReleaseLoop today st common vid (entry # rest) (items, processed, errs, ok, buffer)
           = bulkReleaseLoop today st common vid rest
               (items1, processed @ p, errs @ e, ok \<and> e = [], buffer @ map fst p)"
    by blast
  have 1: "bulkReleaseLoop today st common vid (entry # rest) (items, processed, errs, ok, buffer)
      = map_option (\<lambda>(items', p', e', ok', b). (items', (processed @ p) @ p', (errs @ e) @ e', (ok \<and> e = []) \<and> ok', (buffer @ map fst p) @ b))
         (bulkReleaseLoop today st common vid rest (items1, [], [], True, []))"
    unfolding step by (rule Cons.IH)
  have 2: "bulkReleaseLoop today st common vid (entry # rest) (items, [], [], True, [])
      = map_option (\<lambda>(items', p', e', ok', b). (items', ([] @ p) @ p', ([] @ e) @ e', (True \<and> e = []) \<and> ok', ([] @ map fst p) @ b))
         (bulkReleaseLoop today st common vid rest (items1, [], [], True, []))"
    unfolding step by (rule Cons.IH)
  show ?case unfolding 1 2
    by (cases "bulkReleaseLoop today st common vid rest (items1, [], [], True, [])") auto
qed

lemma bulkReleaseLoop_append:
  "bulkReleaseLoop today st common vid (pre @ post) s
     = (case bulkReleaseLoop today st common vid pre s of
          None \<Rightarrow> None
        | Some s1 \<Rightarrow> bulkReleaseLoop today st common vid post s1)"
proof (induction pre arbitrary: s)
  case Nil
  show ?case by simp
next
  case (Cons entry pre)
  obtain items processed errs ok buffer where s: "s = (items, processed, errs, ok, buffer)"
    by (cases s)
  show ?case unfolding s
    by (simp add: Cons.IH split: option.split prod.split outcome.split)
qed

lemma bulkReleaseLoop_err_ids:
  assumes date: "releaseDateStr today (releaseDate common) \<noteq> None"
  shows "bulkReleaseLoop today st common vid entries (items, processed, errs, ok, buffer)
           = Some (items', processed', errs', ok', buffer')
     \<Longrightarrow> fst ` set errs' \<subseteq> fst ` set errs \<union> itemId ` set entries"
proof (induction entries arbitrary: items processed errs ok buffer)
  case Nil
  then show ?case by simp
next
  case (Cons entry rest)
  from bulk_step_entry [OF date, of st vid entry items] obtain items1 p e where
    step: "\<And>rest processed errs ok buffer.
         bulkReleaseLoop today st common vid (entry # rest) (items, processed, errs, ok, buffer)
           = bulkReleaseLoop today st common vid rest
               (items1, processed @ p, errs @ e, ok \<and> e = [], buffer @ map fst p)"
    and e: "e = [] \<or> (\<exists>n m. e = [(itemId entry, n, m)])"
    by (metis (no_types, lifting))
  from Cons.prems [unfolded step] have "fst ` set errs' \<subseteq> fst ` set (errs @ e) \<union> itemId ` set rest"
    by (rule Cons.IH)
  with e show ?case by auto
qed

lemma bulkReleaseLoop_entry:
  assumes date: "releaseDateStr today (releaseDate common) \<noteq> None"
    and run: "bulkReleaseLoop today st common vid (pre @ entry # post) (items, [], [], True, [])
                = Some (items', processed', errs', ok', buffer')"
    and once: "itemId entry \<notin> itemId ` set (pre @ post)"
  shows "if entryRefused st items entry
         then itemId entry \<in> fst ` set errs'
            \<and> itemId entry \<notin> (\<lambda>(u, q, a). id_item u) ` set processed'
            \<and> (\<forall>k. findIndex (\<lambda>item. id_item item = itemId entry) items = Some k \<longrightarrow> items' ! k = items ! k)
         else itemId entry \<notin> fst ` set errs'
            \<and> (\<exists>k u a. findIndex (\<lambda>item. id_item item = itemId entry) items = Some k
                  \<and> (u, quantityReleased entry, a) \<in> set processed' \<and> items' ! k = u
                  \<and> id_item u = itemId entry \<and> 0 < quantityReleased entry
                  \<and> modifyItemBatchesForRelease today (itemId entry) (quantityReleased entry)
                       (Some (releaseOpNotes today vid common)) FEFO items
                     = (items[k := u], Resolved (u, a)))"
proof -
  let ?ids = "\<lambda>ps. (\<lambda>(u, q, a). id_item u) ` set ps"
  from bulkReleaseLoop_inv [OF date, of st vid pre items "[]" "[]" True "[]"]
  obtain items1 p1 e1 ok1 b1 where
    l1: "bulkReleaseLoop today st common vid pre (items, [], [], True, []) = Some (items1, p1, e1, ok1, b1)"
    and len1: "length items1 = length items"
    and ids1: "map id_item items1 = map id_item items"
    and same1: "\<forall>k<length items. id_item (items ! k) \<notin> ?ids p1 \<longrightarrow> items1 ! k = items ! k"
    and proc1: "\<forall>(u, q, a)\<in>set p1. 0 < q \<and> (\<exists>x\<in>set pre. itemId x = id_item u \<and> quantityReleased x = q)"
    by auto
  from bulkReleaseLoop_err_ids [OF date l1] have err1: "fst ` set e1 \<subseteq> itemId ` set pre" by simp
  from proc1 have pid1: "?ids p1 \<subseteq> itemId ` set pre" by force
  from bulk_step_entry [OF date, of st vid entry items1] obtain items2 p e where
    step: "\<And>rest processed errs ok buffer.
         bulkReleaseLoop today st common vid (entry # rest) (items1, processed, errs, ok, buffer)
           = bulkReleaseLoop today st common vid rest
               (items2, processed @ p, errs @ e, ok \<and> e = [], buffer @ map fst p)"
    and alt: "if entryRefused st items1 entry
        then p = [] \<and> items2 = items1 \<and> (\<exists>n m. e = [(itemId entry, n, m)])
        else e = [] \<and> 0 < quantityReleased entry
           \<and> (\<exists>u aff. p = [(u, quantityReleased entry, aff)]
                 \<and> modifyItemBatchesForRelease today (itemId entry) (quantityReleased entry)
                      (Some (releaseOpNotes today vid common)) FEFO items1 = (items2, Resolved (u, aff)))"
    by blast
  from bulkReleaseLoop_inv [OF date, of st vid post items2 "p1 @ p" "e1 @ e" "ok1 \<and> e = []" "b1 @ map fst p"]
  obtain items3 p3 e3 ok3 b3 where
    l3: "bulkReleaseLoop today st common vid post (items2, p1 @ p, e1 @ e, ok1 \<and> e = [], b1 @ map fst p)
           = Some (items3, (p1 @ p) @ p3, (e1 @ e) @ e3, ok3, b3)"
    and same3: "\<forall>k<length items2. id_item (items2 ! k) \<notin> ?ids p3 \<longrightarrow> items3 ! k = items2 ! k"
    and proc3: "\<forall>(u, q, a)\<in>set p3. 0 < q \<and> (\<exists>x\<in>set post. itemId x = id_item u \<and> quantityReleased x = q)"
    by auto
  from bulkReleaseLoop_err_ids [OF date l3]
  have err3: "fst ` set ((e1 @ e) @ e3) \<subseteq> fst ` set (e1 @ e) \<union> itemId ` set post" .
  from proc3 have pid3: "?ids p3 \<subseteq> itemId ` set post" by force
  have "bulkReleaseLoop today st common vid (pre @ entry # post) (items, [], [], True, [])
      = Some (items3, (p1 @ p) @ p3, (e1 @ e) @ e3, ok3, b3)"
    by (simp add: bulkReleaseLoop_append l1 step l3 del: bulkReleaseLoop.simps)
  with run have fin: "items' = items3" "processed' = (p1 @ p) @ p3" "errs' = (e1 @ e) @ e3" by simp_all
  from once have n1: "itemId entry \<notin> itemId ` set pre" and n3: "itemId entry \<notin> itemId ` set post"
    by auto
  have fi: "findIndex (\<lambda>item. id_item item = itemId entry) items1
      = findIndex (\<lambda>item. id_item item = itemId entry) items"
    using ids1 by (rule findIndex_map_cong)
  have at1: "items1 ! k = items ! k" if "findIndex (\<lambda>item. id_item item = itemId entry) items = Some k" for k
  proof -
    from that have kl: "k < length items" and kid: "id_item (items ! k) = itemId entry"
      by (auto simp: findIndex_Some_iff)
    from pid1 n1 kid have "id_item (items ! k) \<notin> ?ids p1" by auto
    with same1 kl show ?thesis by blast
  qed
  have refused: "entryRefused st items1 entry = entryRefused st items entry"
    unfolding entryRefused_def fi using at1 by (auto split: option.splits)
  show ?thesis
  proof (cases "entryRefused st items entry")
    case True
    with alt refused obtain n m where p: "p = []" and i2: "items2 = items1" and e: "e = [(itemId entry, n, m)]"
      by auto
    have "itemId entry \<in> fst ` set errs'" unfolding fin e by simp
    moreover have "itemId entry \<notin> ?ids processed'"
      unfolding fin p using pid1 pid3 n1 n3 by auto
    moreover have "items' ! k = items ! k"
      if k: "findIndex (\<lambda>item. id_item item = itemId entry) items = Some k" for k
    proof -
      from k have kl: "k < length items" and kid: "id_item (items ! k) = itemId entry"
        by (auto simp: findIndex_Some_iff)
      have "id_item (items2 ! k) \<notin> ?ids p3"
        using pid3 n3 kid by (auto simp: i2 at1 [OF k])
      moreover have "k < length items2" using kl len1 i2 by simp
      ultimately have "items3 ! k = items2 ! k" using same3 by blast
      then show ?thesis by (simp add: fin i2 at1 [OF k])
    qed
    ultimately have "itemId entry \<in> fst ` set errs'
            \<and> itemId entry \<notin> ?ids processed'
            \<and> (\<forall>k. findIndex (\<lambda>item. id_item item = itemId entry) items = Some k \<longrightarrow> items' ! k = items ! k)"
      by blast
    with True show ?thesis by simp
  next
    case False
    with alt refused obtain u aff where e: "e = []" and pos: "0 < quantityReleased entry"
      and p: "p = [(u, quantityReleased entry, aff)]"
      and res: "modifyItemBatchesForRelease today (itemId entry) (quantityReleased entry)
                      (Some (releaseOpNotes today vid common)) FEFO items1 = (items2, Resolved (u, aff))"
      by auto
    from modify_ResolvedD [OF res] obtain k where
      k1: "findIndex (\<lambda>item. id_item item = itemId entry) items1 = Some k"
      and i2: "items2 = items1[k := u]" and uid: "id_item u = itemId entry" by blast
    from k1 fi have k: "findIndex (\<lambda>item. id_item item = itemId entry) items = Some k" by simp
    then have kl: "k < length items" by (simp add: findIndex_Some_iff)
    have m: "modifyItemBatchesForRelease today (itemId entry) (quantityReleased entry)
                 (Some (releaseOpNotes today vid common)) FEFO items = (items[k := u], Resolved (u, aff))"
      using k k1 at1 [OF k] res by (rule modify_depends_on_item)
    have k2: "k < length items2" using kl len1 i2 by simp
    have u2: "items2 ! k = u" using i2 kl len1 by simp
    have "id_item (items2 ! k) \<notin> ?ids p3"
      using pid3 n3 uid by (auto simp: u2)
    with same3 k2 have "items3 ! k = items2 ! k" by blast
    with u2 have "items' ! k = u" by (simp add: fin)
    moreover have "(u, quantityReleased entry, aff) \<in> set processed'" unfolding fin p by simp
    moreover have "itemId entry \<notin> fst ` set errs'"
    proof
      assume "itemId entry \<in> fst ` set errs'"
      with err3 have "itemId entry \<in> fst ` set (e1 @ e) \<union> itemId ` set post"
        unfolding fin by blast
      with n3 e have "itemId entry \<in> fst ` set e1" by simp
      with err1 n1 show False by blast
    qed
    ultimately have "itemId entry \<notin> fst ` set errs'
            \<and> (\<exists>k u a. findIndex (\<lambda>item. id_item item = itemId entry) items = Some k
                  \<and> (u, quantityReleased entry, a) \<in> set processed' \<and> items' ! k = u
                  \<and> id_item u = itemId entry \<and> 0 < quantityReleased entry
                  \<and> modifyItemBatchesForRelease today (itemId entry) (quantityReleased entry)
                       (Some (releaseOpNotes today vid common)) FEFO items
                     = (items[k := u], Resolved (u, a)))"
      using k uid pos m by blast
    with False show ?thesis by simp
  qed
qed

lemma bulkReleaseLoop_split:
  assumes date: "releaseDateStr today (releaseDate common) \<noteq> None"
    and run: "bulkReleaseLoop today st common vid (pre @ post) (items, [], [], True, [])
                = Some (items', processed', errs', ok', buffer')"
  shows "\<exists>items1 p1 e1 ok1 b1 p2 e2 ok2 b2.
      bulkReleaseLoop today st common vid pre (items, [], [], True, []) = Some (items1, p1, e1, ok1, b1)
    \<and> bulkReleaseLoop today st common vid post (items1, [], [], True, []) = Some (items', p2, e2, ok2, b2)
    \<and> processed' = p1 @ p2 \<and> errs' = e1 @ e2"
proof (cases "bulkReleaseLoop today st common vid pre (items, [], [], True, [])")
  case None
  with run show ?thesis by (simp add: bulkReleaseLoop_append)
next
  case (Some s1)
  obtain items1 p1 e1 ok1 b1 where s1: "s1 = (items1, p1, e1, ok1, b1)" by (cases s1)
  from run Some have l2: "bulkReleaseLoop today st common vid post (items1, p1, e1, ok1, b1)
      = Some (items', processed', errs', ok', buffer')"
    by (simp add: bulkReleaseLoop_append s1)
  show ?thesis
  proof (cases "bulkReleaseLoop today st common vid post (items1, [], [], True, [])")
    case None
    with l2 show ?thesis by (simp add: bulkReleaseLoop_accumulates [OF date, of st vid post items1 p1 e1 ok1 b1])
  next
    case s2: (Some s2)
    obtain items2 p2 e2 ok2 b2 where t: "s2 = (items2, p2, e2, ok2, b2)" by (cases s2)
    from l2 have "items' = items2 \<and> processed' = p1 @ p2 \<and> errs' = e1 @ e2"
      by (simp add: bulkReleaseLoop_accumulates [OF date, of st vid post items1 p1 e1 ok1 b1] s2 t)
    with Some s1 s2 t show ?thesis by simp
  qed
qed

lemma processBulkStockRelease_of_loop:
  assumes "bulkReleaseLoop today st (commonDetails_payload payload) (''VOUCHER-'' @ showInt now)
             (itemsToRelease payload) (items, [], [], True, []) = Some (items', processed, errs, ok, buffer)"
  shows "\<exists>state' res. processBulkStockRelease today now payload (st, items) = Some ((state', items'), res)
     \<and> processedItems res = processed \<and> errors res = errs"
  using assms by (simp add: processBulkStockRelease_def Let_def)

text \<open>
  Claim C7.  With a release date that is absent or well formed, a bulk release returns a
  response, and every entry has exactly one outcome in it: a processed item or an error.
  An entry whose item is unknown, whose quantity is not positive or whose quantity exceeds
  the item's stock is in the error list.  The stored items that no successful entry names
  are unchanged; the allocations drained for a successful entry sum to its quantity (batch
  ids unique within each item).  The success flag is true exactly when every entry was
  processed successfully and there is at least one.

  Entries are processed independently.  An entry whose item no other entry of the payload
  names has the outcome that the entry and the stock of its item decide, whatever the
  outcomes of the entries before and after it: if it is turned down (unknown item,
  quantity not positive, quantity above the stock) it is in the error list, it is not
  among the processed items and the stored item is as before; otherwise it is not in the
  error list, it is among the processed items, and the stored item is the updated item of
  that record, drained according to the FEFO plan: each batch quantity is the earlier one
  less its allocation and the item's total has fallen by the entry's quantity.  For any
  payload, the response is the response to a first part of the entries followed by the
  response to the rest, processed on the collection that the first part left: a failure
  does not end the loop.
\<close>

theorem bulk_release_isolates_entries:
  assumes date: "releaseDateStr today (releaseDate (commonDetails_payload payload)) \<noteq> None"
  shows "\<exists>state' items' res.
      processBulkStockRelease today now payload (allItemsState, items) = Some ((state', items'), res)
    \<and> length (processedItems res) + length (errors res) = length (itemsToRelease payload)
    \<and> (success res \<longleftrightarrow> length (processedItems res) = length (itemsToRelease payload)
                        \<and> 0 < length (processedItems res))
    \<and> (\<forall>entry\<in>set (itemsToRelease payload).
          entryInvalid allItemsState entry \<longrightarrow> itemId entry \<in> fst ` set (errors res))
    \<and> length items' = length items
    \<and> (\<forall>k<length items. id_item (items ! k) \<notin> (\<lambda>(u, q, a). id_item u) ` set (processedItems res)
          \<longrightarrow> items' ! k = items ! k)
    \<and> (\<forall>(u, q, a)\<in>set (processedItems res). 0 < q
          \<and> (\<exists>entry\<in>set (itemsToRelease payload). itemId entry = id_item u \<and> quantityReleased entry = q))
    \<and> (idsDistinct items \<longrightarrow> (\<forall>(u, q, a)\<in>set (processedItems res). sum_list (map snd a) = q))
    \<and> (\<forall>pre entry post.
          itemsToRelease payload = pre @ entry # post \<and> itemId entry \<notin> itemId ` set (pre @ post) \<longrightarrow>
          (if entryRefused allItemsState items entry
           then itemId entry \<in> fst ` set (errors res)
              \<and> itemId entry \<notin> (\<lambda>(u, q, a). id_item u) ` set (processedItems res)
              \<and> (\<forall>k. findIndex (\<lambda>item. id_item item = itemId entry) items = Some k
                      \<longrightarrow> items' ! k = items ! k)
           else itemId entry \<notin> fst ` set (errors res)
              \<and> (\<exists>k u a. findIndex (\<lambda>item. id_item item = itemId entry) items = Some k
                    \<and> (u, quantityReleased entry, a) \<in> set (processedItems res)
                    \<and> items' ! k = u \<and> id_item u = itemId entry
                    \<and> (distinct (map id_batch (batches (items ! k))) \<longrightarrow>
                          a = planDrain (sortedBatches FEFO (batches (items ! k))) (quantityReleased entry)
                        \<and> drainedItem (items ! k) a today u
                        \<and> getTotalQuantity u = getTotalQuantity (items ! k) - quantityReleased entry))))
    \<and> (\<forall>pre post. itemsToRelease payload = pre @ post \<longrightarrow>
          (\<exists>state1 items1 res1 state2 res2.
             processBulkStockRelease today now (withEntries payload pre) (allItemsState, items)
               = Some ((state1, items1), res1)
           \<and> processBulkStockRelease today now (withEntries payload post) (allItemsState, items1)
               = Some ((state2, items'), res2)
           \<and> processedItems res = processedItems res1 @ processedItems res2
           \<and> errors res = errors res1 @ errors res2))"
proof -
  let ?vid = "''VOUCHER-'' @ showInt now"
  let ?common = "commonDetails_payload payload"
  from bulkReleaseLoop_inv [OF date, of allItemsState ?vid "itemsToRelease payload" items "[]" "[]" True "[]"]
  obtain items' processed' errs' ok' buffer' where
    loop: "bulkReleaseLoop today allItemsState ?common ?vid (itemsToRelease payload)
             (items, [], [], True, []) = Some (items', processed', errs', ok', buffer')"
    and len: "length processed' + length errs' = length (itemsToRelease payload)"
    and ok: "ok' \<longleftrightarrow> errs' = []"
    and inv: "\<forall>entry\<in>set (itemsToRelease payload). entryInvalid allItemsState entry \<longrightarrow> itemId entry \<in> fst ` set errs'"
    and li: "length items' = length items"
    and same: "\<forall>k<length items. id_item (items ! k) \<notin> (\<lambda>(u, q, a). id_item u) ` set processed'
          \<longrightarrow> items' ! k = items ! k"
    and proc: "\<forall>(u, q, a)\<in>set processed'. 0 < q
          \<and> (\<exists>entry\<in>set (itemsToRelease payload). itemId entry = id_item u \<and> quantityReleased entry = q)"
    by auto
  define bufferMap where "bufferMap = map_of (rev (map (\<lambda>item. (id_item item, item)) buffer'))"
  define state' where "state' = (if length buffer' > 0
                                then map (\<lambda>item. case bufferMap (id_item item) of
                                                   Some u \<Rightarrow> u | None \<Rightarrow> item) allItemsState
                                else allItemsState)"
  define res where "res = \<lparr>success = (ok' \<and> length processed' > 0), processedItems = processed',
     errors = errs', commonDetails = commonDetails_payload payload, voucherId = ?vid\<rparr>"
  have pr: "processedItems res = processed'" and er: "errors res = errs'" by (simp_all add: res_def)
  have run: "processBulkStockRelease today now payload (allItemsState, items) = Some ((state', items'), res)"
    using loop by (simp add: processBulkStockRelease_def Let_def bufferMap_def state'_def res_def)
  have flag: "success res \<longleftrightarrow> length (processedItems res) = length (itemsToRelease payload)
                        \<and> 0 < length (processedItems res)"
    using ok len by (auto simp: res_def)
  have c1: "length (processedItems res) + length (errors res) = length (itemsToRelease payload)"
    using len by (simp add: res_def)
  have c2: "\<forall>entry\<in>set (itemsToRelease payload).
          entryInvalid allItemsState entry \<longrightarrow> itemId entry \<in> fst ` set (errors res)"
    using inv by (simp add: res_def)
  have c3: "\<forall>k<length items. id_item (items ! k) \<notin> (\<lambda>(u, q, a). id_item u) ` set (processedItems res)
          \<longrightarrow> items' ! k = items ! k" using same by (simp add: res_def)
  have c4: "\<forall>(u, q, a)\<in>set (processedItems res). 0 < q
          \<and> (\<exists>entry\<in>set (itemsToRelease payload). itemId entry = id_item u \<and> quantityReleased entry = q)"
    using proc by (simp add: res_def)
  have c5: "idsDistinct items \<longrightarrow> (\<forall>(u, q, a)\<in>set (processedItems res). sum_list (map snd a) = q)"
  proof
    assume "idsDistinct items"
    with bulkReleaseLoop_sums [OF loop] have "sumsOk processed'" by (simp add: sumsOk_def)
    then show "\<forall>(u, q, a)\<in>set (processedItems res). sum_list (map snd a) = q"
      by (simp add: sumsOk_def res_def)
  qed
  have c6: "if entryRefused allItemsState items entry
           then itemId entry \<in> fst ` set (errors res)
              \<and> itemId entry \<notin> (\<lambda>(u, q, a). id_item u) ` set (processedItems res)
              \<and> (\<forall>k. findIndex (\<lambda>item. id_item item = itemId entry) items = Some k
                      \<longrightarrow> items' ! k = items ! k)
           else itemId entry \<notin> fst ` set (errors res)
              \<and> (\<exists>k u a. findIndex (\<lambda>item. id_item item = itemId entry) items = Some k
                    \<and> (u, quantityReleased entry, a) \<in> set (processedItems res)
                    \<and> items' ! k = u \<and> id_item u = itemId entry
                    \<and> (distinct (map id_batch (batches (items ! k))) \<longrightarrow>
                          a = planDrain (sortedBatches FEFO (batches (items ! k))) (quantityReleased entry)
                        \<and> drainedItem (items ! k) a today u
                        \<and> getTotalQuantity u = getTotalQuantity (items ! k) - quantityReleased entry))"
    if split: "itemsToRelease payload = pre @ entry # post"
      and once: "itemId entry \<notin> itemId ` set (pre @ post)" for pre entry post
  proof (cases "entryRefused allItemsState items entry")
    case True
    with bulkReleaseLoop_entry [OF date loop [unfolded split] once] show ?thesis
      by (simp add: pr er)
  next
    case False
    with bulkReleaseLoop_entry [OF date loop [unfolded split] once]
    obtain k u a where ne: "itemId entry \<notin> fst ` set errs'"
      and k: "findIndex (\<lambda>item. id_item item = itemId entry) items = Some k"
      and p: "(u, quantityReleased entry, a) \<in> set processed'" and u: "items' ! k = u"
      and uid: "id_item u = itemId entry" and pos: "0 < quantityReleased entry"
      and m: "modifyItemBatchesForRelease today (itemId entry) (quantityReleased entry)
                       (Some (releaseOpNotes today ?vid ?common)) FEFO items
                     = (items[k := u], Resolved (u, a))"
      by auto
    have "a = planDrain (sortedBatches FEFO (batches (items ! k))) (quantityReleased entry)
        \<and> drainedItem (items ! k) a today u
        \<and> getTotalQuantity u = getTotalQuantity (items ! k) - quantityReleased entry"
      if dist: "distinct (map id_batch (batches (items ! k)))"
      using modify_resolved_effect(2,4,5) [OF k dist _ m] pos by simp
    with ne k p u uid have "itemId entry \<notin> fst ` set (errors res)
              \<and> (\<exists>k u a. findIndex (\<lambda>item. id_item item = itemId entry) items = Some k
                    \<and> (u, quantityReleased entry, a) \<in> set (processedItems res)
                    \<and> items' ! k = u \<and> id_item u = itemId entry
                    \<and> (distinct (map id_batch (batches (items ! k))) \<longrightarrow>
                          a = planDrain (sortedBatches FEFO (batches (items ! k))) (quantityReleased entry)
                        \<and> drainedItem (items ! k) a today u
                        \<and> getTotalQuantity u = getTotalQuantity (items ! k) - quantityReleased entry))"
      unfolding pr er by blast
    with False show ?thesis by simp
  qed
  have c7: "\<exists>state1 items1 res1 state2 res2.
             processBulkStockRelease today now (withEntries payload pre) (allItemsState, items)
               = Some ((state1, items1), res1)
           \<and> processBulkStockRelease today now (withEntries payload post) (allItemsState, items1)
               = Some ((state2, items'), res2)
           \<and> processedItems res = processedItems res1 @ processedItems res2
           \<and> errors res = errors res1 @ errors res2"
    if split: "itemsToRelease payload = pre @ post" for pre post
  proof -
    from bulkReleaseLoop_split [OF date loop [unfolded split]]
    obtain items1 p1 e1 ok1 b1 p2 e2 ok2 b2 where
      l1: "bulkReleaseLoop today allItemsState ?common ?vid pre (items, [], [], True, []) = Some (items1, p1, e1, ok1, b1)"
      and l2: "bulkReleaseLoop today allItemsState ?common ?vid post (items1, [], [], True, []) = Some (items', p2, e2, ok2, b2)"
      and pe: "processed' = p1 @ p2" "errs' = e1 @ e2" by blast
    from processBulkStockRelease_of_loop [of today allItemsState "withEntries payload pre" now items items1 p1 e1 ok1 b1] l1
    obtain state1 res1 where
      r1: "processBulkStockRelease today now (withEntries payload pre) (allItemsState, items) = Some ((state1, items1), res1)"
      "processedItems res1 = p1" "errors res1 = e1"
      by (auto simp: withEntries_def)
    from processBulkStockRelease_of_loop [of today allItemsState "withEntries payload post" now items1 items' p2 e2 ok2 b2] l2
    obtain state2 res2 where
      r2: "processBulkStockRelease today now (withEntries payload post) (allItemsState, items1) = Some ((state2, items'), res2)"
      "processedItems res2 = p2" "errors res2 = e2"
      by (auto simp: withEntries_def)
    from r1 r2 pe show ?thesis unfolding pr er by blast
  qed
  from run c1 flag c2 li c3 c4 c5 c6 c7 show ?thesis by blast
qed

lemma example_bulk_release:
  "processBulkStockRelease ''2025-02-01'' 17 bulkPayload ([gauze, propofol], [gauze, propofol])
     = Some (([gauzeReleased, propofol], [gauzeReleased, propofol]),
             \<lparr>success = False,
              processedItems = [(gauzeReleased, 5, [(''b2'', 5)])],
              errors = [(''B'', ''Propofol 200mg/20ml'', NotEnoughStockAvailable 10)],
              commonDetails = ward3,
              voucherId = ''VOUCHER-17''\<rparr>)"
  by (simp add: processBulkStockRelease_def bulkPayload_def gauzeReleased_def
      modifyItemBatchesForRelease_def gauze_def propofol_def vialsBatch_def undatedBatch_def datedBatch_def
      getTotalQuantity_def
      sortedBatches_def arraySort_def compareFEFO_def sortCompare_def truthy_def Let_def
      releaseOpNotes_def releaseDateStr_def ward3_def appendNote_def strOf_def showInt_def)

lemma example_failing_first:
  "processBulkStockRelease ''2025-02-01'' 17 failingFirst ([gauze, propofol], [gauze, propofol])
     = Some (([gauzeReleased, propofol], [gauzeReleased, propofol]),
             \<lparr>success = False,
              processedItems = [(gauzeReleased, 5, [(''b2'', 5)])],
              errors = [(''B'', ''Propofol 200mg/20ml'', NotEnoughStockAvailable 10)],
              commonDetails = ward3,
              voucherId = ''VOUCHER-17''\<rparr>)"
  by (simp add: processBulkStockRelease_def failingFirst_def gauzeReleased_def
      modifyItemBatchesForRelease_def gauze_def propofol_def vialsBatch_def undatedBatch_def datedBatch_def
      getTotalQuantity_def
      sortedBatches_def arraySort_def compareFEFO_def sortCompare_def truthy_def Let_def
      releaseOpNotes_def releaseDateStr_def ward3_def appendNote_def strOf_def showInt_def)

theorem bulk_release_isolates_entries_witness:
  "releaseDateStr ''2025-02-01'' (releaseDate (commonDetails_payload failingFirst)) \<noteq> None
   \<and> processBulkStockRelease ''2025-02-01'' 17 failingFirst ([gauze, propofol], [gauze, propofol])
     = Some (([gauzeReleased, propofol], [gauzeReleased, propofol]),
             \<lparr>success = False,
              processedItems = [(gauzeReleased, 5, [(''b2'', 5)])],
              errors = [(''B'', ''Propofol 200mg/20ml'', NotEnoughStockAvailable 10)],
              commonDetails = ward3,
              voucherId = ''VOUCHER-17''\<rparr>)
   \<and> processBulkStockRelease ''2025-02-01'' 17 bulkPayload ([gauze, propofol], [gauze, propofol])
     = Some (([gauzeReleased, propofol], [gauzeReleased, propofol]),
             \<lparr>success = False,
              processedItems = [(gauzeReleased, 5, [(''b2'', 5)])],
              errors = [(''B'', ''Propofol 200mg/20ml'', NotEnoughStockAvailable 10)],
              commonDetails = ward3,
              voucherId = ''VOUCHER-17''\<rparr>)
   \<and> entryRefused [gauze, propofol] [gauze, propofol] \<lparr>itemId = ''B'', quantityReleased = 999999\<rparr>
   \<and> \<not> entryRefused [gauze, propofol] [gauze, propofol] \<lparr>itemId = ''A'', quantityReleased = 5\<rparr>
   \<and> (\<exists>state' items' res.
      processBulkStockRelease ''2025-02-01'' 17 failingFirst ([gauze, propofol], [gauze, propofol])
        = Some ((state', items'), res)
    \<and> length (processedItems res) + length (errors res) = length (itemsToRelease failingFirst)
    \<and> ''B'' \<in> fst ` set (errors res)
    \<and> items' ! 1 = propofol
    \<and> (\<exists>u a. (u, 5, a) \<in> set (processedItems res) \<and> items' ! 0 = u
          \<and> a = planDrain (sortedBatches FEFO (batches gauze)) 5
          \<and> drainedItem gauze a ''2025-02-01'' u
          \<and> getTotalQuantity u = getTotalQuantity gauze - 5))"
proof -
  let ?A = "\<lparr>itemId = ''A'', quantityReleased = 5\<rparr>"
  let ?B = "\<lparr>itemId = ''B'', quantityReleased = 999999\<rparr>"
  have h: "releaseDateStr ''2025-02-01'' (releaseDate (commonDetails_payload failingFirst)) \<noteq> None"
    by (simp add: releaseDateStr_def failingFirst_def ward3_def truthy_def)
  have sa: "itemsToRelease failingFirst = [?B] @ ?A # []" and sb: "itemsToRelease failingFirst = [] @ ?B # [?A]"
    by (simp_all add: failingFirst_def)
  have oa: "itemId ?A \<notin> itemId ` set ([?B] @ [])" and ob: "itemId ?B \<notin> itemId ` set ([] @ [?A])"
    by simp_all
  have ka: "findIndex (\<lambda>item. id_item item = itemId ?A) [gauze, propofol] = Some 0"
    and kb: "findIndex (\<lambda>item. id_item item = itemId ?B) [gauze, propofol] = Some 1"
    by (simp_all add: gauze_def propofol_def)
  have ra: "\<not> entryRefused [gauze, propofol] [gauze, propofol] ?A"
    by (simp add: entryRefused_def entryInvalid_def ka getTotalQuantity_def available_def
        gauze_def undatedBatch_def datedBatch_def)
  have rb: "entryRefused [gauze, propofol] [gauze, propofol] ?B"
    by (simp add: entryRefused_def entryInvalid_def getTotalQuantity_def
        gauze_def propofol_def vialsBatch_def)
  have dist: "distinct (map id_batch (batches ([gauze, propofol] ! 0)))"
    by (simp add: gauze_def undatedBatch_def datedBatch_def)
  from bulk_release_isolates_entries [OF h, of 17 "[gauze, propofol]" "[gauze, propofol]"]
  obtain state' items' res where
    run: "processBulkStockRelease ''2025-02-01'' 17 failingFirst ([gauze, propofol], [gauze, propofol])
        = Some ((state', items'), res)"
    and len: "length (processedItems res) + length (errors res) = length (itemsToRelease failingFirst)"
    and ent: "\<And>pre entry post.
          itemsToRelease failingFirst = pre @ entry # post \<and> itemId entry \<notin> itemId ` set (pre @ post) \<Longrightarrow>
          (if entryRefused [gauze, propofol] [gauze, propofol] entry
           then itemId entry \<in> fst ` set (errors res)
              \<and> itemId entry \<notin> (\<lambda>(u, q, a). id_item u) ` set (processedItems res)
              \<and> (\<forall>k. findIndex (\<lambda>item. id_item item = itemId entry) [gauze, propofol] = Some k
                      \<longrightarrow> items' ! k = [gauze, propofol] ! k)
           else itemId entry \<notin> fst ` set (errors res)
              \<and> (\<exists>k u a. findIndex (\<lambda>item. id_item item = itemId entry) [gauze, propofol] = Some k
                    \<and> (u, quantityReleased entry, a) \<in> set (processedItems res)
                    \<and> items' ! k = u \<and> id_item u = itemId entry
                    \<and> (distinct (map id_batch (batches ([gauze, propofol] ! k))) \<longrightarrow>
                          a = planDrain (sortedBatches FEFO (batches ([gauze, propofol] ! k))) (quantityReleased entry)
                        \<and> drainedItem ([gauze, propofol] ! k) a ''2025-02-01'' u
                        \<and> getTotalQuantity u = getTotalQuantity ([gauze, propofol] ! k) - quantityReleased entry)))"
    by blast
  from ent [of "[?B]" ?A "[]"] sa oa ra ka dist
  have a: "\<exists>u a. (u, 5, a) \<in> set (processedItems res) \<and> items' ! 0 = u
          \<and> a = planDrain (sortedBatches FEFO (batches gauze)) 5
          \<and> drainedItem gauze a ''2025-02-01'' u
          \<and> getTotalQuantity u = getTotalQuantity gauze - 5"
    by auto
  from ent [of "[]" ?B "[?A]"] sb ob rb kb
  have b: "''B'' \<in> fst ` set (errors res)" "items' ! 1 = propofol"
    by auto
  from h run len a b ra rb example_failing_first example_bulk_release show ?thesis by blast
qed

section \<open>Movement reconstruction after an addition\<close>






















lemma addBatchToItem_unfold:
  assumes "findIndex (\<lambda>item. id_item item = i) items = Some k"
  shows "addBatchToItem today newId i bd u items =
     (items[k := (items ! k)\<lparr>batches := batches (items ! k) @
          [\<lparr>id_batch = newId, quantity = quantity_data bd, expiryDate = expiryDate_data bd,
            supplier = supplier_data bd, dateAdded = today,
            notes_batch = Some (trim (systemNotePrefix today bd u @ strOf (notes_data bd)))\<rparr>],
          lastUpdated := today\<rparr>],
      Resolved ((items ! k)\<lparr>batches := batches (items ! k) @
          [\<lparr>id_batch = newId, quantity = quantity_data bd, expiryDate = expiryDate_data bd,
            supplier = supplier_data bd, dateAdded = today,
            notes_batch = Some (trim (systemNotePrefix today bd u @ strOf (notes_data bd)))\<rparr>],
          lastUpdated := today\<rparr>))"
  by (simp add: addBatchToItem_def assms Let_def)

































section \<open>The single-item add-batch of the hook\<close>

lemma addStockBatchToItem_creates_batch:
  assumes state: "find (\<lambda>item. id_item item = i) allItemsState = Some currentItem"
    and found: "findIndex (\<lambda>item. id_item item = i) items = Some k"
  shows "\<exists>state' items' updatedItem newBatch.
      addStockBatchToItem today newId i batchDetails (allItemsState, items)
        = ((state', items'), Returned updatedItem)
    \<and> items' = items[k := updatedItem]
    \<and> batches updatedItem = batches (items ! k) @ [newBatch]
    \<and> quantity newBatch = quantityAdded batchDetails \<and> dateAdded newBatch = today
    \<and> id_batch newBatch = newId"
  by (simp add: addStockBatchToItem_def state addBatchToItem_unfold [OF found])

end
